theory Spec2Isabelle
  imports Main "HOL-Library.Sublist" "HOL-Library.Char_ord"
begin

section \<open>Python strings\<close>

text \<open>
  A Python \<open>str\<close> is a sequence of code points. It is modelled as a \<open>string\<close>, whose
  characters are the code points 0 to 255; the character classes below are the ones of
  CPython for that range (\<open>str.isspace\<close>, \<open>str.lower\<close>, and the classes \<open>\s\<close>,
  \<open>\w\<close>, \<open>\d\<close> of the \<open>re\<close> module on \<open>str\<close> patterns). Every statement of this
  theory about "every string" is about every string of such code points.
  Python integers and lists are unbounded in the model of the metadata-anchored
  extractor, whose recursion is on the parts of one type spelling. The free-text mapper
  builds a list whose size is a number it reads from its input; its model takes the
  limits of the interpreter (recursion depth, the digits of an integer, the size of a
  list or text, memory) as a parameter.
\<close>

definition is_space :: "char \<Rightarrow> bool" where
  \<comment> \<open>\<open>str.isspace\<close> and \<open>\s\<close>: TAB, LF, VT, FF, CR, FS, GS, RS, US, SPACE, NEL, NBSP\<close>
  "is_space c = (c \<in> set [CHR 0x09, CHR 0x0A, CHR 0x0B, CHR 0x0C, CHR 0x0D,
       CHR 0x1C, CHR 0x1D, CHR 0x1E, CHR 0x1F, CHR 0x20, CHR 0x85, CHR 0xA0])"

definition is_ascii_letter :: "char \<Rightarrow> bool" where
  \<comment> \<open>the class \<open>[A-Za-z]\<close>\<close>
  "is_ascii_letter c = ((CHR ''A'' \<le> c \<and> c \<le> CHR ''Z'') \<or> (CHR ''a'' \<le> c \<and> c \<le> CHR ''z''))"

definition is_digit :: "char \<Rightarrow> bool" where
  \<comment> \<open>\<open>\d\<close>: the decimal digits; below code point 256 these are \<open>0\<close> to \<open>9\<close>\<close>
  "is_digit c = (CHR ''0'' \<le> c \<and> c \<le> CHR ''9'')"

definition is_word :: "char \<Rightarrow> bool" where
  \<comment> \<open>\<open>\w\<close>: alphanumeric code points and the underscore. Beyond ASCII these are the
      letters, digits and numeric characters of Latin-1.\<close>
  "is_word c = (is_ascii_letter c \<or> is_digit c \<or> c = CHR ''_'' \<or>
       c \<in> set [CHR 0xAA, CHR 0xB2, CHR 0xB3, CHR 0xB5, CHR 0xB9, CHR 0xBA, CHR 0xBC, CHR 0xBD, CHR 0xBE] \<or>
       (CHR 0xC0 \<le> c \<and> c \<le> CHR 0xD6) \<or> (CHR 0xD8 \<le> c \<and> c \<le> CHR 0xF6) \<or> CHR 0xF8 \<le> c)"

definition lower_char :: "char \<Rightarrow> char" where
  \<comment> \<open>\<open>str.lower\<close> on one code point: \<open>A-Z\<close> and the capitals \<open>0xC0-0xDE\<close> (but the
      multiplication sign \<open>0xD7\<close>) move up by 32\<close>
  "lower_char c = (if (CHR ''A'' \<le> c \<and> c \<le> CHR ''Z'') \<or> (CHR 0xC0 \<le> c \<and> c \<le> CHR 0xDE \<and> c \<noteq> CHR 0xD7)
       then char_of (of_char c + (32::nat)) else c)"

definition lower :: "string \<Rightarrow> string" where
  "lower s = map lower_char s"

definition strip :: "string \<Rightarrow> string" where
  \<comment> \<open>\<open>s.strip()\<close>\<close>
  "strip s = rev (dropWhile is_space (rev (dropWhile is_space s)))"

definition lstrip_chars :: "string \<Rightarrow> string \<Rightarrow> string" where
  \<comment> \<open>\<open>s.lstrip(chars)\<close>\<close>
  "lstrip_chars chars s = dropWhile (\<lambda>c. c \<in> set chars) s"

definition rstrip_chars :: "string \<Rightarrow> string \<Rightarrow> string" where
  \<comment> \<open>\<open>s.rstrip(chars)\<close>\<close>
  "rstrip_chars chars s = rev (dropWhile (\<lambda>c. c \<in> set chars) (rev s))"

definition startswith :: "string \<Rightarrow> string \<Rightarrow> bool" where
  \<comment> \<open>\<open>s.startswith(p)\<close>\<close>
  "startswith s p = prefix p s"

definition endswith :: "string \<Rightarrow> string \<Rightarrow> bool" where
  \<comment> \<open>\<open>s.endswith(p)\<close>\<close>
  "endswith s p = suffix p s"

fun split_first :: "string \<Rightarrow> string \<Rightarrow> (string \<times> string) option" where
  \<comment> \<open>the text before and after the first occurrence of a non-empty \<open>sep\<close> in \<open>s\<close>\<close>
  "split_first sep [] = None"
| "split_first sep (c # cs) =
     (if prefix sep (c # cs) then Some ([], drop (length sep) (c # cs))
      else map_option (\<lambda>(a, b). (c # a, b)) (split_first sep cs))"

definition contains :: "string \<Rightarrow> string \<Rightarrow> bool" where
  \<comment> \<open>\<open>sub in s\<close>, for a non-empty \<open>sub\<close>\<close>
  "contains s sub = (split_first sub s \<noteq> None)"

definition split_last :: "string \<Rightarrow> string \<Rightarrow> (string \<times> string) option" where
  \<comment> \<open>the text before and after the last occurrence of a non-empty \<open>sep\<close> in \<open>s\<close>\<close>
  "split_last sep s = map_option (\<lambda>(a, b). (rev b, rev a)) (split_first (rev sep) (rev s))"

definition split1 :: "string \<Rightarrow> string \<Rightarrow> string list" where
  \<comment> \<open>\<open>s.split(sep, 1)\<close>\<close>
  "split1 s sep = (case split_first sep s of None \<Rightarrow> [s] | Some (a, b) \<Rightarrow> [a, b])"

definition rsplit1 :: "string \<Rightarrow> string \<Rightarrow> string list" where
  \<comment> \<open>\<open>s.rsplit(sep, 1)\<close>\<close>
  "rsplit1 s sep = (case split_last sep s of None \<Rightarrow> [s] | Some (a, b) \<Rightarrow> [a, b])"

lemma split_first_length:
  "split_first sep s = Some (a, b) \<Longrightarrow> sep \<noteq> [] \<Longrightarrow> length a + length sep + length b = length s"
proof (induction s arbitrary: a b)
  case Nil
  then show ?case by simp
next
  case (Cons c cs)
  show ?case
  proof (cases "prefix sep (c # cs)")
    case True
    then have "length sep \<le> length (c # cs)" by (rule prefix_length_le)
    with True Cons.prems show ?thesis by auto
  next
    case False
    with Cons.prems obtain a' where "split_first sep cs = Some (a', b)" and "a = c # a'"
      by (auto split: option.splits)
    with Cons.IH [of a' b] Cons.prems show ?thesis by simp
  qed
qed

function split :: "string \<Rightarrow> string \<Rightarrow> string list" where
  \<comment> \<open>\<open>s.split(sep)\<close>, for a non-empty \<open>sep\<close>\<close>
  "split s sep =
     (if sep = [] then [s]
      else case split_first sep s of None \<Rightarrow> [s] | Some (a, b) \<Rightarrow> a # split b sep)"
  by pat_completeness auto
termination
proof (relation "measure (\<lambda>(s, sep). length s)")
  show "wf (measure (\<lambda>(s, sep). length s))" by simp
next
  fix s sep :: string and x2 a b
  assume "sep \<noteq> []" "split_first sep s = Some x2" "(a, b) = x2"
  then have "length a + length sep + length b = length s"
    using split_first_length [of sep s a b] by simp
  with \<open>sep \<noteq> []\<close> show "((b, sep), (s, sep)) \<in> measure (\<lambda>(s, sep). length s)"
    by (cases sep) auto
qed

declare split.simps [simp del]

fun split_ws_loop :: "string \<Rightarrow> string \<Rightarrow> string list" where
  \<comment> \<open>the words of \<open>s\<close>, \<open>cur\<close> being the word read so far, reversed\<close>
  "split_ws_loop cur [] = (if cur = [] then [] else [rev cur])"
| "split_ws_loop cur (c # cs) =
     (if is_space c then (if cur = [] then split_ws_loop [] cs else rev cur # split_ws_loop [] cs)
      else split_ws_loop (c # cur) cs)"

definition split_ws :: "string \<Rightarrow> string list" where
  \<comment> \<open>\<open>s.split()\<close>: the maximal runs of characters that are not whitespace\<close>
  "split_ws s = split_ws_loop [] s"

fun join :: "string \<Rightarrow> string list \<Rightarrow> string" where
  \<comment> \<open>\<open>sep.join(xs)\<close>\<close>
  "join sep [] = []"
| "join sep [x] = x"
| "join sep (x # y # ys) = x @ sep @ join sep (y # ys)"

definition replace :: "string \<Rightarrow> string \<Rightarrow> string \<Rightarrow> string" where
  \<comment> \<open>\<open>s.replace(old, new)\<close>, for a non-empty \<open>old\<close>\<close>
  "replace s old new = join new (split s old)"

function str_nat :: "nat \<Rightarrow> string" where
  \<comment> \<open>\<open>str(n)\<close> of a natural number, as an f-string prints it\<close>
  "str_nat n = (if n < 10 then [char_of (48 + n)] else str_nat (n div 10) @ [char_of (48 + n mod 10)])"
  by pat_completeness auto
termination
  by (relation "measure id") auto

declare str_nat.simps [simp del]

text \<open>
  The exceptions a step of the code can raise; \<open>NoLabel\<close> stands for a result that is
  Python's \<open>None\<close> where the caller needs a text. The last three are raised by the
  interpreter at its limits.
\<close>

datatype error = ValueError | IndexError | KeyError | NoLabel
  | RecursionError | OverflowError | MemoryError

definition truthy :: "string option \<Rightarrow> bool" where
  \<comment> \<open>the truth value of a text or \<open>None\<close>: false for \<open>None\<close> and for the empty text\<close>
  "truthy x = (case x of None \<Rightarrow> False | Some s \<Rightarrow> s \<noteq> [])"

definition py_or :: "string option \<Rightarrow> string option \<Rightarrow> string option" where
  \<comment> \<open>\<open>a or b\<close>\<close>
  "py_or a b = (if truthy a then a else b)"

definition fmt :: "string option \<Rightarrow> string" where
  \<comment> \<open>a value as an f-string prints it; also the text itself of a value that is known
      to be a text\<close>
  "fmt x = (case x of None \<Rightarrow> ''None'' | Some s \<Rightarrow> s)"

definition find_index :: "string \<Rightarrow> string \<Rightarrow> nat option" where
  \<comment> \<open>\<open>s.index(sub)\<close> where \<open>sub in s\<close>, and \<open>None\<close> where it is not\<close>
  "find_index s sub = map_option (\<lambda>(a, b). length a) (split_first sub s)"

section \<open>The metadata-anchored extractor\<close>

subsection \<open>\<open>split_types_list\<close>\<close>

type_synonym split_state = "string list \<times> string \<times> int \<times> int \<times> int"

fun split_types_step :: "split_state \<Rightarrow> char \<Rightarrow> split_state" where
  \<comment> \<open>one round of the loop, on \<open>(parts, buf, depth_angle, depth_curly, depth_paren)\<close>\<close>
  "split_types_step (parts, buf, depth_angle, depth_curly, depth_paren) ch =
     (if ch = CHR ''<'' then (parts, buf @ [ch], depth_angle + 1, depth_curly, depth_paren)
      else if ch = CHR ''>'' then (parts, buf @ [ch], max 0 (depth_angle - 1), depth_curly, depth_paren)
      else if ch = CHR ''{'' then (parts, buf @ [ch], depth_angle, depth_curly + 1, depth_paren)
      else if ch = CHR ''}'' then (parts, buf @ [ch], depth_angle, max 0 (depth_curly - 1), depth_paren)
      else if ch = CHR ''('' then (parts, buf @ [ch], depth_angle, depth_curly, depth_paren + 1)
      else if ch = CHR '')'' then (parts, buf @ [ch], depth_angle, depth_curly, max 0 (depth_paren - 1))
      else if ch = CHR '','' \<and> (depth_angle = 0 \<and> depth_curly = 0 \<and> depth_paren = 0)
        then (parts @ [strip buf], [], depth_angle, depth_curly, depth_paren)
      else (parts, buf @ [ch], depth_angle, depth_curly, depth_paren))"

definition split_types_list :: "string \<Rightarrow> string list" where
  "split_types_list s =
     (case foldl split_types_step ([], [], 0, 0, 0) s of
        (parts, buf, depth_angle, depth_curly, depth_paren) \<Rightarrow>
          filter (\<lambda>p. p \<noteq> []) (if buf \<noteq> [] then parts @ [strip buf] else parts))"

subsection \<open>The contract of \<open>split_types_list\<close>\<close>

text \<open>
  The splitter's contract, in the words of its specification: every character of the
  text stands in a scope, three counters of the brackets \<open><>\<close>, \<open>{}\<close> and \<open>()\<close>
  opened and not yet closed before it, a closing bracket with nothing to close leaving
  its counter at zero. The text is cut at the commas that stand in the scope
  \<open>(0, 0, 0)\<close>, and nowhere else.
\<close>

type_synonym scope = "int \<times> int \<times> int"

fun scope_step :: "scope \<Rightarrow> char \<Rightarrow> scope" where
  "scope_step (a, c, p) ch =
     (if ch = CHR ''<'' then (a + 1, c, p)
      else if ch = CHR ''>'' then (max 0 (a - 1), c, p)
      else if ch = CHR ''{'' then (a, c + 1, p)
      else if ch = CHR ''}'' then (a, max 0 (c - 1), p)
      else if ch = CHR ''('' then (a, c, p + 1)
      else if ch = CHR '')'' then (a, c, max 0 (p - 1))
      else (a, c, p))"

primrec scopes :: "scope \<Rightarrow> string \<Rightarrow> scope list" where
  "scopes d [] = []"
| "scopes d (ch # cs) = d # scopes (scope_step d ch) cs"

fun split_where :: "('a \<Rightarrow> bool) \<Rightarrow> 'a list \<Rightarrow> 'a list list" where
  "split_where P [] = [[]]"
| "split_where P (x # xs) =
     (if P x then [] # split_where P xs
      else (x # hd (split_where P xs)) # tl (split_where P xs))"

definition top_level_comma :: "char \<times> scope \<Rightarrow> bool" where
  "top_level_comma x = (fst x = CHR '','' \<and> snd x = (0, 0, 0))"

definition segments_from :: "scope \<Rightarrow> string \<Rightarrow> string list" where
  "segments_from d s = map (map fst) (split_where top_level_comma (zip s (scopes d s)))"

definition top_level_segments :: "string \<Rightarrow> string list" where
  "top_level_segments s = segments_from (0, 0, 0) s"

definition scope_nonneg :: "scope \<Rightarrow> bool" where
  "scope_nonneg d = (case d of (a, c, p) \<Rightarrow> 0 \<le> a \<and> 0 \<le> c \<and> 0 \<le> p)"

text \<open>The loop of \<open>split_types_list\<close> computes these segments.\<close>

lemma split_where_nonempty: "split_where P xs \<noteq> []"
  by (cases xs) auto

lemma segments_from_nonempty: "segments_from d s \<noteq> []"
  by (simp add: segments_from_def split_where_nonempty)

lemma segments_from_Nil: "segments_from d [] = [[]]"
  by (simp add: segments_from_def)

lemma segments_from_Cons:
  "segments_from d (ch # cs) =
     (if ch = CHR '','' \<and> d = (0, 0, 0) then [] # segments_from d cs
      else (ch # hd (segments_from (scope_step d ch) cs)) # tl (segments_from (scope_step d ch) cs))"
proof (cases "ch = CHR '','' \<and> d = (0, 0, 0)")
  case True
  then have "scope_step d ch = d" by simp
  with True show ?thesis by (simp add: segments_from_def top_level_comma_def)
next
  case False
  then have "\<not> top_level_comma (ch, d)" by (auto simp: top_level_comma_def)
  with False show ?thesis
    by (simp add: segments_from_def hd_map map_tl split_where_nonempty)
qed

lemma split_types_step_other:
  "\<not> (ch = CHR '','' \<and> (a, c, p) = (0, 0, 0)) \<Longrightarrow>
     split_types_step (parts, buf, a, c, p) ch = (case scope_step (a, c, p) ch of (a', c', p') \<Rightarrow> (parts, buf @ [ch], a', c', p'))"
  by auto

lemma split_types_step_comma:
  "split_types_step (parts, buf, 0, 0, 0) CHR '','' = (parts @ [strip buf], [], 0, 0, 0)"
  by simp

lemma strip_Nil: "strip [] = []"
  by (simp add: strip_def)

lemma length_strip: "length (strip s) \<le> length s"
proof -
  have "length (strip s) \<le> length (dropWhile is_space s)"
    unfolding strip_def using length_dropWhile_le [of is_space "rev (dropWhile is_space s)"] by simp
  also have "\<dots> \<le> length s" by (rule length_dropWhile_le)
  finally show ?thesis .
qed

lemma foldl_split_types_step:
  "foldl split_types_step (parts, buf, d) s =
     (parts @ map strip (butlast ((buf @ hd (segments_from d s)) # tl (segments_from d s))),
      last ((buf @ hd (segments_from d s)) # tl (segments_from d s)), foldl scope_step d s)"
proof (induction s arbitrary: parts buf d)
  case (Nil parts buf d)
  show ?case by (simp add: segments_from_Nil)
next
  case (Cons ch cs parts buf d)
  obtain a c p where d: "d = (a, c, p)" using prod_cases3 by blast
  show ?case
  proof (cases "ch = CHR '','' \<and> d = (0, 0, 0)")
    case True
    then have step: "split_types_step (parts, buf, d) ch = (parts @ [strip buf], [], d)"
      and same: "scope_step d ch = d"
      by simp_all
    have eq: "([] @ hd (segments_from d cs)) # tl (segments_from d cs) = segments_from d cs"
      using segments_from_nonempty [of d cs] by simp
    have "foldl split_types_step (parts @ [strip buf], [], d) cs =
        ((parts @ [strip buf]) @ map strip (butlast (segments_from d cs)),
         last (segments_from d cs), foldl scope_step d cs)"
      using Cons.IH [of "parts @ [strip buf]" "[]" d] by (simp only: eq)
    with True step same show ?thesis
      using segments_from_nonempty [of d cs] by (simp add: segments_from_Cons)
  next
    case False
    from False d have step: "split_types_step (parts, buf, d) ch = (parts, buf @ [ch], scope_step d ch)"
      using split_types_step_other [of ch a c p parts buf] by (simp split: prod.splits)
    from False have segs: "segments_from d (ch # cs) =
        (ch # hd (segments_from (scope_step d ch) cs)) # tl (segments_from (scope_step d ch) cs)"
      using segments_from_Cons [of d ch cs] by auto
    from Cons.IH [of parts "buf @ [ch]" "scope_step d ch"] step show ?thesis
      by (simp add: segs)
  qed
qed

lemma split_types_list_segments:
  "split_types_list s = filter (\<lambda>p. p \<noteq> []) (map strip (top_level_segments s))"
proof -
  let ?segs = "segments_from (0, 0, 0) s"
  have ne: "?segs \<noteq> []" by (rule segments_from_nonempty)
  have "foldl split_types_step ([], [], (0, 0, 0)) s =
      (map strip (butlast ?segs), last ?segs, foldl scope_step (0, 0, 0) s)"
    using foldl_split_types_step [of "[]" "[]" "(0, 0, 0)" s] ne by simp
  then have "split_types_list s = filter (\<lambda>p. p \<noteq> [])
      (if last ?segs \<noteq> [] then map strip (butlast ?segs) @ [strip (last ?segs)] else map strip (butlast ?segs))"
    by (cases "foldl scope_step (0, 0, 0) s") (simp add: split_types_list_def)
  also have "\<dots> = filter (\<lambda>p. p \<noteq> []) (map strip (butlast ?segs @ [last ?segs]))"
    by (simp add: strip_Nil)
  also have "butlast ?segs @ [last ?segs] = ?segs" using ne by simp
  finally show ?thesis by (simp add: top_level_segments_def)
qed

lemma join_Cons: "xs \<noteq> [] \<Longrightarrow> join sep (x # xs) = x @ sep @ join sep xs"
  by (cases xs) simp_all

lemma join_segments_from: "join '','' (segments_from d s) = s"
proof (induction s arbitrary: d)
  case Nil
  show ?case by (simp add: segments_from_Nil)
next
  case (Cons ch cs d)
  show ?case
  proof (cases "ch = CHR '','' \<and> d = (0, 0, 0)")
    case True
    with Cons.IH [of d] show ?thesis
      by (simp add: segments_from_Cons join_Cons segments_from_nonempty)
  next
    case False
    let ?r = "segments_from (scope_step d ch) cs"
    from False have segs: "segments_from d (ch # cs) = (ch # hd ?r) # tl ?r"
      using segments_from_Cons [of d ch cs] by auto
    have r: "?r = hd ?r # tl ?r" using segments_from_nonempty [of "scope_step d ch" cs] by simp
    have "join '','' ((ch # hd ?r) # tl ?r) = ch # join '','' (hd ?r # tl ?r)"
      by (cases "tl ?r") simp_all
    with r Cons.IH [of "scope_step d ch"] segs show ?thesis by simp
  qed
qed

lemma scope_step_nonneg: "scope_nonneg d \<Longrightarrow> scope_nonneg (scope_step d ch)"
  by (cases d) (auto simp: scope_nonneg_def)

lemma scopes_nonneg: "scope_nonneg d \<Longrightarrow> e \<in> set (scopes d s) \<Longrightarrow> scope_nonneg e"
proof (induction s arbitrary: d)
  case Nil
  then show ?case by simp
next
  case (Cons ch cs d)
  from Cons.prems(2) have "e = d \<or> e \<in> set (scopes (scope_step d ch) cs)" by simp
  then show ?case
  proof
    assume "e = d"
    with Cons.prems(1) show ?thesis by simp
  next
    assume "e \<in> set (scopes (scope_step d ch) cs)"
    with Cons.IH [of "scope_step d ch"] scope_step_nonneg [OF Cons.prems(1)] show ?thesis by blast
  qed
qed

lemma length_le_join: "x \<in> set xs \<Longrightarrow> length x \<le> length (join sep xs)"
  by (induction sep xs rule: join.induct) auto

lemma split_types_list_length: "p \<in> set (split_types_list s) \<Longrightarrow> length p \<le> length s"
proof -
  assume "p \<in> set (split_types_list s)"
  then obtain seg where seg: "seg \<in> set (top_level_segments s)" and p: "p = strip seg"
    by (auto simp: split_types_list_segments)
  from seg have "length seg \<le> length (join '','' (top_level_segments s))" by (rule length_le_join)
  then have "length seg \<le> length s" by (simp add: top_level_segments_def join_segments_from)
  with p length_strip [of seg] show ?thesis by simp
qed

subsection \<open>\<open>parse_help_id\<close>\<close>

definition parse_help_id :: "string \<Rightarrow> error + (string option \<times> string option \<times> string list)" where
  \<comment> \<open>Unpacking \<open>left.rsplit('.', 1)\<close> into two names raises \<open>ValueError\<close> when \<open>left\<close>
      has no dot.\<close>
  "parse_help_id help_id =
     (if help_id = [] \<or> \<not> startswith help_id ''M:'' then Inr (None, None, [])
      else
        let body = drop 2 help_id;
            (left, params_part) =
              (if contains body ''('' then
                 (let left = split1 body ''('' ! 0; right = split1 body ''('' ! 1
                  in (left, if contains right '')'' then rsplit1 right '')'' ! 0 else right))
               else (body, ''''));
            param_types = (if params_part \<noteq> [] then split_types_list params_part else [])
        in if contains left ''.#ctor'' then
             Inr (Some (split left ''.#ctor'' ! 0), Some ''#ctor'', param_types)
           else (case rsplit1 left ''.'' of
                   [container_fqn, method_raw] \<Rightarrow> Inr (Some container_fqn, Some method_raw, param_types)
                 | _ \<Rightarrow> Inl ValueError))"

subsection \<open>\<open>parse_csharp_signature\<close>\<close>

definition CS_ACCESS_KWS :: "string list" where
  "CS_ACCESS_KWS = [''public'', ''private'', ''protected'', ''internal'']"

definition CS_MODIFIER_KWS :: "string list" where
  "CS_MODIFIER_KWS = [''static'', ''virtual'', ''override'', ''sealed'', ''extern'', ''unsafe'',
     ''abstract'', ''new'', ''readonly'', ''partial'', ''async'']"

text \<open>
  The regular expressions of the parser, each as the function it computes. A greedy
  repetition followed by an item that none of its characters can start takes its
  longest run, and \<open>$\<close> is the end of the text or stands before one last line feed.
\<close>

definition default_clause :: "string \<Rightarrow> bool" where
  \<comment> \<open>\<open>\s*=\s*[^,]+$\<close> matches the whole of \<open>r\<close>: whitespace, an equals sign, and
      at least one more character, none of them a comma\<close>
  "default_clause r = (case dropWhile is_space r of [] \<Rightarrow> False
     | c # z \<Rightarrow> c = CHR ''='' \<and> z \<noteq> [] \<and> CHR '','' \<notin> set z)"

fun sub_default :: "string \<Rightarrow> string" where
  \<comment> \<open>\<open>re.sub(r'\s*=\s*[^,]+$', '', p)\<close>: the text before the leftmost place from which
      the pattern matches to the end\<close>
  "sub_default [] = []"
| "sub_default (c # cs) = (if default_clause (c # cs) then [] else c # sub_default cs)"

definition sub_qualifier :: "string \<Rightarrow> string" where
  \<comment> \<open>\<open>re.sub(r'^(this|ref|out|params|in)\s+', '', p)\<close>: the first of the keywords
      that starts the text and has whitespace after it goes, with that whitespace\<close>
  "sub_qualifier p =
     (case find (\<lambda>kw. startswith p kw \<and> (case drop (length kw) p of [] \<Rightarrow> False | c # r \<Rightarrow> is_space c))
             [''this'', ''ref'', ''out'', ''params'', ''in''] of
        None \<Rightarrow> p
      | Some kw \<Rightarrow> dropWhile is_space (drop (length kw) p))"

definition is_identifier :: "string \<Rightarrow> bool" where
  \<comment> \<open>\<open>re.match(r'^[A-Za-z_]\w*$', name)\<close> matches\<close>
  "is_identifier name =
     (case name of [] \<Rightarrow> False
      | c # r \<Rightarrow> (is_ascii_letter c \<or> c = CHR ''_'') \<and>
          list_all is_word (if r \<noteq> [] \<and> last r = CHR 0x0A then butlast r else r))"

definition param_name_step :: "string list \<Rightarrow> string \<Rightarrow> string list" where
  \<comment> \<open>one round of the loop over the parts of the parameter list: \<open>param_names\<close>
      with the name of the part \<open>p0\<close> appended\<close>
  "param_name_step param_names p0 =
     (let p = strip p0;
          p = sub_default p;
          p = sub_qualifier p;
          tokens = split_ws p
      in if tokens \<noteq> [] then
           (let name = last tokens;
                name = rstrip_chars '','' name;
                name = replace name ''[]'' '''';
                name = lstrip_chars ''@'' name;
                name = (if \<not> is_identifier name then ''arg'' @ str_nat (length param_names + 1) else name)
            in param_names @ [name])
         else param_names @ [''arg'' @ str_nat (length param_names + 1)])"

definition parse_csharp_signature ::
  "string \<Rightarrow> string option \<Rightarrow> string option \<times> string option \<times> string list \<times> bool" where
  \<comment> \<open>the result is \<open>(return_type, method_name, param_names, is_static)\<close>; the function
      never reads \<open>container_simple\<close>\<close>
  "parse_csharp_signature cs_text container_simple =
     (if cs_text = [] then (None, None, [], False)
      else
        let text = strip cs_text;
            text = (case find_index text '')'' of Some i \<Rightarrow> take (i + 1) text | None \<Rightarrow> text);
            oneline = join '' '' (split_ws (replace text [CHR 0x0A] '' ''));
            is_static = contains ('' '' @ oneline @ '' '') '' static '';
            (head, params_part) =
              (if contains oneline ''('' \<and> contains oneline '')'' then
                 (split1 oneline ''('' ! 0, strip (rsplit1 (split1 oneline ''('' ! 1) '')'' ! 0))
               else (oneline, ''''));
            head_tokens = filter (\<lambda>t. t \<notin> set CS_ACCESS_KWS \<and> t \<notin> set CS_MODIFIER_KWS)
                            (split_ws (strip head));
            (return_type, method_name) =
              (if length head_tokens = 1 then (None, Some (head_tokens ! 0))
               else if length head_tokens \<ge> 2 then
                 (Some (head_tokens ! (length head_tokens - 2)), Some (head_tokens ! (length head_tokens - 1)))
               else (None, None));
            param_names =
              (if params_part \<noteq> [] then foldl param_name_step [] (split_types_list params_part) else [])
        in (return_type, method_name, param_names, is_static))"

subsection \<open>\<open>map_dotnet_to_python\<close>\<close>

definition match_tail :: "string \<Rightarrow> string option" where
  \<comment> \<open>the end \<open>(.+)\}$\<close> of the two patterns below, matched against all of \<open>r\<close>:
      the group is the text before the last brace, not empty and with no line feed in
      it (the dot matches none), and after the brace the text ends, or one line feed
      ends it\<close>
  "match_tail r =
     (let body = (if endswith r [CHR ''}'', CHR 0x0A] then Some (take (length r - 2) r)
                  else if endswith r ''}'' then Some (butlast r) else None)
      in case body of None \<Rightarrow> None
         | Some g \<Rightarrow> if g \<noteq> [] \<and> CHR 0x0A \<notin> set g then Some g else None)"

definition match_nullable :: "string \<Rightarrow> string option" where
  \<comment> \<open>\<open>re.match(r'(?:System\.)?Nullable\{(.+)\}$', t)\<close>: the group\<close>
  "match_nullable t =
     (if startswith t ''System.Nullable{'' then match_tail (drop 16 t)
      else if startswith t ''Nullable{'' then match_tail (drop 9 t)
      else None)"

definition match_generic :: "string \<Rightarrow> (string \<times> string) option" where
  \<comment> \<open>\<open>re.match(r'(?P<base>[\w\.]+)\{(?P<inner>.+)\}$', t)\<close>: the groups \<open>base\<close>
      and \<open>inner\<close>\<close>
  "match_generic t =
     (let base = takeWhile (\<lambda>c. is_word c \<or> c = CHR ''.'') t;
          rest = dropWhile (\<lambda>c. is_word c \<or> c = CHR ''.'') t
      in case rest of [] \<Rightarrow> None
         | c # r \<Rightarrow> if base \<noteq> [] \<and> c = CHR ''{'' then map_option (\<lambda>inner. (base, inner)) (match_tail r)
                   else None)"

definition aliases :: "(string \<times> string) list" where
  \<comment> \<open>the dictionary \<open>aliases\<close>; its keys are all different, so \<open>map_of\<close> reads it as
      the dictionary does\<close>
  "aliases = [
     (''System.Void'', ''None''),
     (''void'', ''None''),
     (''System.Boolean'', ''bool''),
     (''bool'', ''bool''),
     (''System.Double'', ''float''),
     (''double'', ''float''),
     (''System.Single'', ''float''),
     (''float'', ''float''),
     (''System.Int32'', ''int''),
     (''int'', ''int''),
     (''System.Int64'', ''int''),
     (''long'', ''int''),
     (''System.String'', ''str''),
     (''string'', ''str''),
     (''System.Object'', ''Any''),
     (''object'', ''Any'')]"

definition generic_base_map :: "(string \<times> string) list" where
  \<comment> \<open>the dictionary \<open>base_map\<close> of the generic branch\<close>
  "generic_base_map = [
     (''System.Collections.Generic.List'', ''List''),
     (''System.Collections.Generic.IList'', ''List''),
     (''System.Collections.Generic.IReadOnlyList'', ''Sequence''),
     (''System.Collections.Generic.IEnumerable'', ''Iterable''),
     (''System.Collections.Generic.ICollection'', ''Sequence''),
     (''System.Collections.Generic.Dictionary'', ''Dict''),
     (''System.Collections.Generic.IDictionary'', ''Dict''),
     (''System.Tuple'', ''Tuple'')]"

lemma match_tail_length: "match_tail r = Some g \<Longrightarrow> length g < length r"
  by (auto simp: match_tail_def endswith_def suffix_def Let_def split: if_splits)

lemma match_nullable_length: "match_nullable t = Some g \<Longrightarrow> length g < length t"
  by (auto simp: match_nullable_def split: if_splits dest!: match_tail_length)

lemma match_generic_length: "match_generic t = Some (base, inner) \<Longrightarrow> length inner < length t"
proof -
  assume m: "match_generic t = Some (base, inner)"
  let ?P = "\<lambda>c. is_word c \<or> c = CHR ''.''"
  from m obtain c r where rest: "dropWhile ?P t = c # r" and tail: "match_tail r = Some inner"
    by (auto simp: match_generic_def Let_def split: list.splits if_splits)
  have "length (dropWhile ?P t) \<le> length t" by (rule length_dropWhile_le)
  with rest match_tail_length [OF tail] show ?thesis by simp
qed

function map_dotnet_to_python :: "string \<Rightarrow> string option \<Rightarrow> string option \<Rightarrow> string" where
  \<comment> \<open>\<open>t0\<close> is the argument \<open>t\<close> as passed, \<open>t\<close> its value after \<open>t = t.strip()\<close>\<close>
  "map_dotnet_to_python t0 container_fqn container_simple =
     (let t = strip t0 in
      if endswith t ''[]'' then
        ''List['' @ map_dotnet_to_python (strip (take (length t - 2) t)) container_fqn container_simple @ '']''
      else case match_nullable t of
        Some inner \<Rightarrow>
          ''Optional['' @ map_dotnet_to_python (strip inner) container_fqn container_simple @ '']''
      | None \<Rightarrow>
          if endswith t ''?'' \<and> \<not> endswith t ''??'' then
            ''Optional['' @ map_dotnet_to_python (butlast t) container_fqn container_simple @ '']''
          else case match_generic t of
            Some (base, inner) \<Rightarrow>
              (let inner_parts = split_types_list inner;
                   mapped_inners = map (\<lambda>p. map_dotnet_to_python p container_fqn container_simple) inner_parts;
                   py_base = (case map_of generic_base_map base of Some b \<Rightarrow> b
                              | None \<Rightarrow> last (split base ''.''));
                   inner_str = join '', '' mapped_inners
               in py_base @ ''['' @ inner_str @ '']'')
          | None \<Rightarrow>
              (case map_of aliases t of
                 Some a \<Rightarrow> a
               | None \<Rightarrow>
                   if truthy container_simple \<and> Some t = container_simple
                   then (if truthy container_fqn then fmt container_fqn else t)
                   else t))"
  by pat_completeness auto
termination
proof (relation "measure (\<lambda>(t0, f, c). length t0)")
  show "wf (measure (\<lambda>(t0, f, c). length t0))" by simp
next
  fix t0 :: string and container_fqn container_simple :: "string option" and x
  assume x: "x = strip t0" and "endswith x ''[]''"
  then have "2 \<le> length x" by (auto simp: endswith_def suffix_def)
  moreover have "length (strip (take (length x - 2) x)) \<le> length x - 2"
    using length_strip [of "take (length x - 2) x"] by simp
  moreover have "length x \<le> length t0" using x length_strip by simp
  ultimately show "((strip (take (length x - 2) x), container_fqn, container_simple), t0, container_fqn, container_simple)
      \<in> measure (\<lambda>(t0, f, c). length t0)" by simp
next
  fix t0 :: string and container_fqn container_simple :: "string option" and x x2
  assume x: "x = strip t0" and "match_nullable x = Some x2"
  then have "length x2 < length x" by (simp add: match_nullable_length)
  moreover have "length (strip x2) \<le> length x2" by (rule length_strip)
  moreover have "length x \<le> length t0" using x length_strip by simp
  ultimately show "((strip x2, container_fqn, container_simple), t0, container_fqn, container_simple)
      \<in> measure (\<lambda>(t0, f, c). length t0)" by simp
next
  fix t0 :: string and container_fqn container_simple :: "string option" and x
  assume x: "x = strip t0" and "endswith x ''?'' \<and> \<not> endswith x ''??''"
  then have "x \<noteq> []" by (auto simp: endswith_def)
  moreover have "length x \<le> length t0" using x length_strip by simp
  ultimately show "((butlast x, container_fqn, container_simple), t0, container_fqn, container_simple)
      \<in> measure (\<lambda>(t0, f, c). length t0)" by (cases x rule: rev_cases) auto
next
  fix t0 :: string and container_fqn container_simple :: "string option" and x x2 xa y xb xc
  assume x: "x = strip t0" and "match_generic x = Some x2" and "(xa, y) = x2"
    and "xb = split_types_list y" and "xc \<in> set xb"
  then have "length y < length x" using match_generic_length [of x xa y] by simp
  moreover have "length xc \<le> length y" using \<open>xb = split_types_list y\<close> \<open>xc \<in> set xb\<close>
    by (simp add: split_types_list_length)
  moreover have "length x \<le> length t0" using x length_strip by simp
  ultimately show "((xc, container_fqn, container_simple), t0, container_fqn, container_simple)
      \<in> measure (\<lambda>(t0, f, c). length t0)" by simp
qed

declare map_dotnet_to_python.simps [simp del]

subsection \<open>\<open>build_signature_line\<close>\<close>

text \<open>
  The function, one definition for each of its local values: \<open>container_simple\<close>, the
  test for a constructor, \<open>py_method_name\<close>, \<open>py_return\<close>, the reconciled
  \<open>param_names\<close>, the list \<open>params\<close> (the \<open>self\<close> entry, then one entry for each
  pair of \<open>zip(param_names, ann_types)\<close>) and the line. The function raises nothing:
  every call it makes returns for every text.
\<close>

definition container_simple_of :: "string option \<Rightarrow> string option" where
  \<comment> \<open>\<open>container_fqn.split('.')[-1] if container_fqn else None\<close>\<close>
  "container_simple_of container_fqn =
     (if truthy container_fqn then Some (last (split (fmt container_fqn) ''.'')) else None)"

definition is_constructor :: "string option \<Rightarrow> string option \<Rightarrow> string option \<Rightarrow> bool" where
  "is_constructor method_raw cs_method_name container_simple =
     (method_raw = Some ''#ctor'' \<or>
      (truthy cs_method_name \<and> truthy container_simple \<and> cs_method_name = container_simple))"

definition py_method_name :: "string option \<Rightarrow> string option \<Rightarrow> string option \<Rightarrow> string option" where
  "py_method_name container_fqn method_raw cs_method_name =
     (if is_constructor method_raw cs_method_name (container_simple_of container_fqn)
      then Some ''__init__'' else py_or cs_method_name method_raw)"

definition py_return :: "string option \<Rightarrow> string option \<Rightarrow> string option \<Rightarrow> string option \<Rightarrow> string" where
  "py_return container_fqn method_raw cs_return_type cs_method_name =
     (if is_constructor method_raw cs_method_name (container_simple_of container_fqn) then ''None''
      else map_dotnet_to_python (fmt (py_or cs_return_type (Some ''None'')))
             container_fqn (container_simple_of container_fqn))"

definition typed_params :: "string option \<Rightarrow> string list \<Rightarrow> string list \<Rightarrow> string list" where
  \<comment> \<open>the entries \<open>name: ann\<close>, the names replaced by \<open>arg1\<close>, \<open>arg2\<close>, ... when their
      count is not the count of the types\<close>
  "typed_params container_fqn param_types param_names =
     (let ann_types = map (\<lambda>t. map_dotnet_to_python t container_fqn (container_simple_of container_fqn))
                        param_types;
          param_names = (if length param_names \<noteq> length ann_types
                         then map (\<lambda>i. ''arg'' @ str_nat (i + 1)) [0..<length ann_types]
                         else param_names)
      in map (\<lambda>(name, ann). name @ '': '' @ ann) (zip param_names ann_types))"

definition signature_params ::
  "string option \<Rightarrow> string option \<Rightarrow> string list \<Rightarrow> string option \<Rightarrow> string list \<Rightarrow> bool \<Rightarrow> string list" where
  "signature_params container_fqn method_raw param_types cs_method_name param_names is_static =
     (if py_method_name container_fqn method_raw cs_method_name = Some ''__init__''
         \<or> (\<not> is_static \<and> truthy cs_method_name)
      then [''self''] else [])
     @ typed_params container_fqn param_types param_names"

definition build_signature_line ::
  "string option \<Rightarrow> string option \<Rightarrow> string list \<Rightarrow> string option \<Rightarrow> string option \<Rightarrow> string list \<Rightarrow> bool \<Rightarrow> string" where
  "build_signature_line container_fqn method_raw param_types cs_return_type cs_method_name param_names is_static =
     (let qualified = fmt container_fqn @ ''.'' @ fmt (py_method_name container_fqn method_raw cs_method_name)
      in qualified @ ''(''
         @ join '', '' (signature_params container_fqn method_raw param_types cs_method_name param_names is_static)
         @ '') -> '' @ py_return container_fqn method_raw cs_return_type cs_method_name)"

subsection \<open>\<open>process_file\<close>\<close>

text \<open>
  \<open>process_file\<close> from the two texts it takes out of the page: \<open>help_id\<close> is what
  \<open>extract_help_id\<close> returned and \<open>cs_text\<close> what \<open>extract_csharp_pre\<close> returned,
  each \<open>None\<close> when the page has no such part. \<open>parse_help_id\<close> is called outside
  the \<open>try\<close>, so its \<open>ValueError\<close> leaves \<open>process_file\<close>; the \<open>try\<close> is around
  \<open>build_signature_line\<close> alone, which raises nothing here.
\<close>

definition process_file :: "string option \<Rightarrow> string option \<Rightarrow> error + string option" where
  "process_file help_id cs_text =
     (case parse_help_id (fmt (py_or help_id (Some ''''))) of
        Inl e \<Rightarrow> Inl e
      | Inr (container_fqn, method_raw, param_types) \<Rightarrow>
          (case parse_csharp_signature (fmt (py_or cs_text (Some ''''))) (container_simple_of container_fqn) of
             (cs_return_type, cs_method_name, param_names, is_static) \<Rightarrow>
               if \<not> truthy container_fqn \<or> \<not> truthy (py_or method_raw cs_method_name) then Inr None
               else Inr (Some (build_signature_line container_fqn method_raw param_types
                                 cs_return_type cs_method_name param_names is_static))))"

section \<open>The block-anchored extractor\<close>

subsection \<open>\<open>build_type_mapper\<close>\<close>

definition norm :: "string \<Rightarrow> string" where
  \<comment> \<open>\<open>(s or "").strip().lower()\<close>\<close>
  "norm s = lower (strip s)"

definition py_map :: "(string \<times> string) list" where
  "py_map = [
     (''none'', ''None''), (''void'', ''None''),
     (''bool'', ''bool''), (''boolean'', ''bool''),
     (''number'', ''float''), (''double'', ''float''), (''float'', ''float''),
     (''int'', ''int''), (''integer'', ''int''),
     (''str'', ''str''), (''string'', ''str''),
     (''guid'', ''str''), (''uuid'', ''str''),
     (''date'', ''datetime.date''), (''datetime.date'', ''datetime.date''),
     (''color'', ''Tuple[int, int, int]''),
     (''point'', ''Tuple[float, float, float]''), (''point3d'', ''Tuple[float, float, float]''),
     (''vector'', ''Tuple[float, float, float]''), (''vector3d'', ''Tuple[float, float, float]''),
     (''interval'', ''Tuple[float, float]''),
     (''plane'', ''Any''),
     (''matrix'', ''List[List[float]]''), (''transform'', ''List[List[float]]'')]"

definition dn_map :: "(string \<times> string) list" where
  "dn_map = [
     (''none'', ''None''), (''void'', ''None''),
     (''bool'', ''bool''), (''boolean'', ''bool''),
     (''number'', ''float''), (''double'', ''float''), (''float'', ''float''),
     (''int'', ''int''), (''integer'', ''int''),
     (''str'', ''str''), (''string'', ''str''),
     (''guid'', ''System.Guid''), (''uuid'', ''System.Guid''),
     (''date'', ''datetime.date''), (''datetime.date'', ''datetime.date''),
     (''color'', ''System.Drawing.Color''),
     (''point'', ''Rhino.Geometry.Point3d''), (''point3d'', ''Rhino.Geometry.Point3d''),
     (''vector'', ''Rhino.Geometry.Vector3d''), (''vector3d'', ''Rhino.Geometry.Vector3d''),
     (''interval'', ''Tuple[float, float]''),
     (''plane'', ''Rhino.Geometry.Plane''),
     (''matrix'', ''Rhino.Geometry.Transform''), (''transform'', ''Rhino.Geometry.Transform'')]"

definition base_map :: "string \<Rightarrow> (string \<times> string) list" where
  \<comment> \<open>\<open>dn_map if style == 'dotnet' else py_map\<close>\<close>
  "base_map style = (if style = ''dotnet'' then dn_map else py_map)"

fun first_mapped :: "(string \<times> string) list \<Rightarrow> string list \<Rightarrow> string option" where
  \<comment> \<open>the loop over the alternatives of a union: the value of the first one that is a
      key of the table with a non-empty value\<close>
  "first_mapped m [] = None"
| "first_mapped m (part # parts) =
     (case map_of m part of
        Some mt \<Rightarrow> if mt \<noteq> [] then Some mt else first_mapped m parts
      | None \<Rightarrow> first_mapped m parts)"

definition alternatives :: "string \<Rightarrow> string list" where
  \<comment> \<open>\<open>[p.strip() for p in t.split(' or ') if p.strip()]\<close>\<close>
  "alternatives t = map strip (filter (\<lambda>p. strip p \<noteq> []) (split t '' or ''))"

definition is_tuple_base_char :: "char \<Rightarrow> bool" where
  \<comment> \<open>the class \<open>[a-zA-Z0-9_.]\<close>\<close>
  "is_tuple_base_char c = (is_ascii_letter c \<or> is_digit c \<or> c = CHR ''_'' \<or> c = CHR ''.'')"

definition match_tuple :: "string \<Rightarrow> (string \<times> string) option" where
  \<comment> \<open>\<open>re.match(r'(\d+)\s+([a-zA-Z0-9_.]+)s?$', inner)\<close>: the two groups. Each
      repetition is greedy and the next item cannot start with a character of the class
      before it, so each takes its longest run; the second group takes a final \<open>s\<close>
      too, and \<open>$\<close> is the end of the text or stands before one last line feed.\<close>
  "match_tuple inner =
     (let digits = takeWhile is_digit inner;
          r1 = dropWhile is_digit inner;
          spaces = takeWhile is_space r1;
          r2 = dropWhile is_space r1;
          base = takeWhile is_tuple_base_char r2;
          r3 = dropWhile is_tuple_base_char r2
      in if digits \<noteq> [] \<and> spaces \<noteq> [] \<and> base \<noteq> [] \<and> (r3 = [] \<or> r3 = [CHR 0x0A])
         then Some (digits, base) else None)"


text \<open>
  The interpreter's limits on what the mapper computes, as a parameter of the model.
  The code does not name them; they are CPython's:
  \<^item> \<open>frames\<close>: how many calls of \<open>map_type\<close>, one inside the other, the stack has
    room for. A call with no room raises \<open>RecursionError\<close>.
  \<^item> \<open>max_str_digits\<close>: \<open>sys.get_int_max_str_digits()\<close>, the longest text of digits
    that \<open>int\<close> converts; a longer one raises \<open>ValueError\<close>. The value 0 stands for
    no limit (the default is 4300 from CPython 3.11 on; older versions have no limit).
  \<^item> \<open>maxsize\<close>: \<open>sys.maxsize\<close>, the largest size a list or a text can have. A larger
    one raises \<open>OverflowError\<close>.
  \<^item> \<open>memory\<close>: the largest list, in items, and the largest text, in characters, that
    the interpreter can allocate. A larger one raises \<open>MemoryError\<close>.

  Memory is modelled where the code builds a value whose size is a number read from
  its input: the list \<open>[inner_t]*n\<close> of the tuple rule and the texts made from it. Every
  other value of the mapper is a part of the label it was given, or a table entry, with
  a few characters around it for each recursive call.
\<close>

record limits =
  frames :: nat
  max_str_digits :: int
  maxsize :: int
  memory :: int

definition int_of_digits :: "string \<Rightarrow> int" where
  \<comment> \<open>the number that a text of decimal digits spells\<close>
  "int_of_digits s = foldl (\<lambda>n c. 10 * n + (of_char c - 48)) 0 s"

definition py_int :: "limits \<Rightarrow> string \<Rightarrow> error + int" where
  \<comment> \<open>\<open>int(s)\<close> of a text of decimal digits\<close>
  "py_int lim s =
     (if max_str_digits lim \<noteq> 0 \<and> max_str_digits lim < int (length s) then Inl ValueError
      else Inr (int_of_digits s))"

definition alloc :: "limits \<Rightarrow> int \<Rightarrow> error option" where
  \<comment> \<open>the exception that building a list or a text of the given size raises, if any\<close>
  "alloc lim n =
     (if maxsize lim < n then Some OverflowError
      else if memory lim < n then Some MemoryError
      else None)"

definition tuple_of :: "limits \<Rightarrow> string \<Rightarrow> int \<Rightarrow> error + string" where
  \<comment> \<open>\<open>'Tuple[' + ', '.join([inner_t]*n) + ']'\<close>: the list, the joined text, and the
      two texts of the concatenations, each built in its turn\<close>
  "tuple_of lim inner_t n =
     (case alloc lim n of
        Some e \<Rightarrow> Inl e
      | None \<Rightarrow>
          (let items = replicate (nat n) inner_t in
           case alloc lim (int (length (join '', '' items))) of
             Some e \<Rightarrow> Inl e
           | None \<Rightarrow>
               (case alloc lim (int (length (''Tuple['' @ join '', '' items))) of
                  Some e \<Rightarrow> Inl e
                | None \<Rightarrow>
                    (case alloc lim (int (length (''Tuple['' @ join '', '' items @ '']''))) of
                       Some e \<Rightarrow> Inl e
                     | None \<Rightarrow> Inr (''Tuple['' @ join '', '' items @ '']'')))))"

definition wrap :: "(string \<Rightarrow> string) \<Rightarrow> error + string \<Rightarrow> error + string" where
  \<comment> \<open>a label built around the label of a recursive call; an exception of the call is
      the exception of the caller\<close>
  "wrap f r = (case r of Inl e \<Rightarrow> Inl e | Inr s \<Rightarrow> Inr (f s))"

definition get_label :: "(string \<times> string) list \<Rightarrow> string \<Rightarrow> error + string" where
  \<comment> \<open>\<open>base_map.get(key)\<close> as the mapper's result: for a key the table does not have
      the result is Python's \<open>None\<close>, which is no label\<close>
  "get_label m key = (case map_of m key of Some v \<Rightarrow> Inr v | None \<Rightarrow> Inl NoLabel)"

definition subscript :: "(string \<times> string) list \<Rightarrow> string \<Rightarrow> error + string" where
  \<comment> \<open>\<open>base_map[t]\<close>\<close>
  "subscript m key = (case map_of m key of Some v \<Rightarrow> Inr v | None \<Rightarrow> Inl KeyError)"

definition item1 :: "string list \<Rightarrow> error + string" where
  \<comment> \<open>\<open>xs[1]\<close>\<close>
  "item1 xs = (case xs of a # b # r \<Rightarrow> Inr b | _ \<Rightarrow> Inl IndexError)"

text \<open>
  \<open>map_type\<close>, the function \<open>build_type_mapper(style)\<close> returns, run by an interpreter
  with the limits \<open>lim\<close>. The en dash that \<open>t.replace\<close> turns into a hyphen is no code
  point below 256, so that line changes no text of the model.
\<close>

function map_type :: "limits \<Rightarrow> string \<Rightarrow> string \<Rightarrow> error + string" where
  "map_type lim style label =
     (if frames lim = 0 then Inl RecursionError
      else
        let inside = lim\<lparr>frames := frames lim - 1\<rparr>;
            t = norm label in
        if t = [] then Inr ''Any''
        else if contains t '' or '' then
          (case first_mapped (base_map style) (alternatives t) of
             Some mt \<Rightarrow> Inr mt
           | None \<Rightarrow> map_type inside style (split1 t '' or '' ! 0))
        else if startswith t ''list of '' \<or> startswith t ''array of '' then
          (case item1 (split1 t '' of '') of
             Inl e \<Rightarrow> Inl e
           | Inr x \<Rightarrow> wrap (\<lambda>s. ''List['' @ s @ '']'') (map_type inside style (strip x)))
        else if startswith t ''tuple of '' then
          (case item1 (split1 t '' of '') of
             Inl e \<Rightarrow> Inl e
           | Inr x \<Rightarrow>
               (case match_tuple (strip x) of
                  Some (digits, base) \<Rightarrow>
                    (case py_int lim digits of
                       Inl e \<Rightarrow> Inl e
                     | Inr n \<Rightarrow>
                         (case map_type inside style base of
                            Inl e \<Rightarrow> Inl e
                          | Inr inner_t \<Rightarrow> tuple_of lim inner_t n))
                | None \<Rightarrow> Inr ''Tuple[Any, ...]''))
        else if t \<in> set (map fst (base_map style)) then subscript (base_map style) t
        else if contains t '','' then map_type inside style (strip (split1 t '','' ! 0))
        else if startswith t ''['' \<and> contains t ''...'' \<and> (contains t ''guid'' \<or> contains t ''uuid'') then
          Inr (''List['' @ (case map_of (base_map style) ''guid'' of Some g \<Rightarrow> g | None \<Rightarrow> ''str'') @ '']'')
        else if contains t ''point'' then get_label (base_map style) ''point''
        else if contains t ''vector'' then get_label (base_map style) ''vector''
        else if contains t ''color'' then get_label (base_map style) ''color''
        else if contains t ''interval'' then get_label (base_map style) ''interval''
        else if contains t ''plane'' then get_label (base_map style) ''plane''
        else if contains t ''transform'' \<or> contains t ''matrix'' then get_label (base_map style) ''transform''
        else Inr ''Any'')"
  by pat_completeness auto
termination
  by (relation "measure (\<lambda>(lim, style, label). frames lim)") auto

declare map_type.simps [simp del]

subsection \<open>\<open>build_typed_signature\<close>\<close>

record pinfo =
  ptype :: string
  optional :: bool

definition typed_item :: "(string \<rightharpoonup> pinfo) \<Rightarrow> string \<times> string option \<Rightarrow> string" where
  \<comment> \<open>one round of the loop: the entry of one parameter \<open>(name, default)\<close> of the
      invocation example\<close>
  "typed_item param_types p =
     (case p of (name, dflt) \<Rightarrow>
        let pinfo = (case param_types name of Some i \<Rightarrow> i
                     | None \<Rightarrow> \<lparr>ptype = ''Any'', optional = False\<rparr>);
            ann = ptype pinfo;
            is_optional = optional pinfo;
            (ann, dflt) =
              (if is_optional \<and> dflt = None \<and> ann \<notin> set [''Any'', ''None'']
                  \<and> \<not> startswith ann ''Optional[''
               then (''Optional['' @ ann @ '']'', Some ''None'') else (ann, dflt))
        in (case dflt of
              None \<Rightarrow> name @ '': '' @ ann
            | Some d \<Rightarrow> name @ '': '' @ ann @ '' = '' @ d))"

definition build_typed_signature ::
  "string \<Rightarrow> (string \<times> string option) list \<Rightarrow> (string \<rightharpoonup> pinfo) \<Rightarrow> string \<Rightarrow> string" where
  "build_typed_signature func_name sig_params param_types returns_type =
     (let items = map (typed_item param_types) sig_params;
          args_str = join '', '' items
      in ''rhinoscriptsyntax.'' @ func_name @ ''('' @ args_str @ '') -> '' @ returns_type)"

subsection \<open>Labels within the interpreter's limits\<close>

definition cpython :: limits where
  \<comment> \<open>a 64-bit CPython 3.11 with its default settings: 4300 digits and \<open>sys.maxsize\<close>
      \<open>2^63 - 1\<close>; of its recursion limit of 1000 frames, room for 900 calls of the
      mapper; and memory for a list or a text of \<open>2^20\<close> items, which is less than any
      machine has\<close>
  "cpython = \<lparr>frames = 900, max_str_digits = 4300,
              maxsize = 9223372036854775807, memory = 1048576\<rparr>"

definition digit_count :: "string \<Rightarrow> nat" where
  \<comment> \<open>how many decimal digits a text has\<close>
  "digit_count s = length (filter is_digit s)"

definition count_room :: "limits \<Rightarrow> nat \<Rightarrow> bool" where
  \<comment> \<open>the interpreter converts every count of at most \<open>k\<close> digits, and has room for a
      list of that many items and for a text of 28 characters for each of them: a label
      of at most 26 characters and the separator\<close>
  "count_room lim k =
     ((max_str_digits lim = 0 \<or> int k \<le> max_str_digits lim)
      \<and> 28 * 10 ^ k \<le> maxsize lim \<and> 28 * 10 ^ k \<le> memory lim)"

subsection \<open>Labels the free-text mapper does not recognize\<close>

definition domain_nouns :: "string list" where
  "domain_nouns = [''point'', ''vector'', ''color'', ''interval'', ''plane'', ''transform'', ''matrix'']"

definition unrecognized :: "string \<Rightarrow> string \<Rightarrow> bool" where
  \<comment> \<open>a normalized label that none of the mapper's rules takes up: no union, no
      \<open>list of\<close>, \<open>array of\<close> or \<open>tuple of\<close> phrase, no key of the table, no clause
      after a comma, no bracketed list of ids, none of the domain nouns\<close>
  "unrecognized style t =
     (\<not> contains t '' or ''
      \<and> \<not> startswith t ''list of '' \<and> \<not> startswith t ''array of '' \<and> \<not> startswith t ''tuple of ''
      \<and> t \<notin> set (map fst (base_map style))
      \<and> \<not> contains t '',''
      \<and> \<not> (startswith t ''['' \<and> contains t ''...'' \<and> (contains t ''guid'' \<or> contains t ''uuid''))
      \<and> list_all (\<lambda>noun. \<not> contains t noun) domain_nouns)"

subsection \<open>The type spellings built from the alias table\<close>

definition generic_base :: "string \<Rightarrow> bool" where
  \<comment> \<open>the name before the brace of a generic type: letters, digits, underscores and dots,
      and not the name of the nullable form, which the normalizer takes up first\<close>
  "generic_base base =
     (base \<noteq> [] \<and> list_all (\<lambda>c. is_word c \<or> c = CHR ''.'') base
      \<and> base \<noteq> ''Nullable'' \<and> base \<noteq> ''System.Nullable'')"

inductive_set alias_forms :: "string set" where
  form_alias: "k \<in> set (map fst aliases) \<Longrightarrow> k \<in> alias_forms"
| form_array: "t \<in> alias_forms \<Longrightarrow> t @ ''[]'' \<in> alias_forms"
| form_nullable: "t \<in> alias_forms \<Longrightarrow> ''Nullable{'' @ t @ ''}'' \<in> alias_forms"
| form_system_nullable: "t \<in> alias_forms \<Longrightarrow> ''System.Nullable{'' @ t @ ''}'' \<in> alias_forms"
| form_question: "t \<in> alias_forms \<Longrightarrow> t @ ''?'' \<in> alias_forms"
| form_generic: "generic_base base \<Longrightarrow> ts \<noteq> [] \<Longrightarrow> \<forall>t \<in> set ts. t \<in> alias_forms
            \<Longrightarrow> base @ ''{'' @ join '','' ts @ ''}'' \<in> alias_forms"

definition stable_labels :: "string \<Rightarrow> string list" where
  \<comment> \<open>the labels of the free-text mapper that it maps to themselves\<close>
  "stable_labels style =
     [''None'', ''bool'', ''float'', ''int'', ''str'', ''datetime.date'', ''Any'']
     @ (if style = ''dotnet''
        then [''System.Drawing.Color'', ''Rhino.Geometry.Point3d'', ''Rhino.Geometry.Vector3d'',
              ''Rhino.Geometry.Plane'', ''Rhino.Geometry.Transform'']
        else [])"

text \<open>Notions of the proofs about these spellings.\<close>

definition form_char :: "char \<Rightarrow> bool" where
  "form_char c = (is_word c \<or> c \<in> set ''.[]{}?,'')"

definition passes :: "string \<Rightarrow> bool" where
  \<comment> \<open>the splitter's loop reads the text into its buffer and leaves the scope it found\<close>
  "passes t = (\<forall>parts buf c. 0 \<le> c \<longrightarrow>
     foldl split_types_step (parts, buf, 0, c, 0) t = (parts, buf @ t, 0, c, 0))"

definition passes_inside :: "string \<Rightarrow> bool" where
  \<comment> \<open>the same inside a brace, where a comma is read into the buffer too\<close>
  "passes_inside t = (\<forall>parts buf c. 0 < c \<longrightarrow>
     foldl split_types_step (parts, buf, 0, c, 0) t = (parts, buf @ t, 0, c, 0))"

definition plain :: "char \<Rightarrow> bool" where
  \<comment> \<open>a character that is no bracket of the splitter and no comma\<close>
  "plain ch = (ch \<notin> set ''<>{}(),'')"

definition settled :: "string \<Rightarrow> bool" where
  \<comment> \<open>a label that none of the normalizer's rules rewrites, unless it is the simple
      name of the containing class, and that can stand inside brackets\<close>
  "settled s =
     (strip s = s \<and> \<not> endswith s ''[]'' \<and> match_nullable s = None
      \<and> \<not> (endswith s ''?'' \<and> \<not> endswith s ''??'') \<and> match_generic s = None
      \<and> (map_of aliases s = None \<or> map_of aliases s = Some s)
      \<and> s \<noteq> [] \<and> last s \<noteq> CHR ''['')"

definition direct :: "string \<Rightarrow> string \<Rightarrow> bool" where
  \<comment> \<open>a normalized label that the mapper settles in the call it is given to: no union,
      no \<open>list of\<close>, \<open>array of\<close> or \<open>tuple of\<close> phrase, and no clause after a comma
      unless the label is a key of the table\<close>
  "direct style t =
     (\<not> contains t '' or ''
      \<and> \<not> startswith t ''list of '' \<and> \<not> startswith t ''array of '' \<and> \<not> startswith t ''tuple of ''
      \<and> (t \<in> set (map fst (base_map style)) \<or> \<not> contains t '',''))"

definition finals :: "string \<Rightarrow> string list" where
  \<comment> \<open>the labels that end a call without a recursive call\<close>
  "finals style =
     ''Any'' # (''List['' @ (case map_of (base_map style) ''guid'' of Some g \<Rightarrow> g | None \<Rightarrow> ''str'') @ '']'')
     # map snd (base_map style)"

definition bracketed :: "string \<Rightarrow> bool" where
  \<comment> \<open>a label that the mapper built with \<open>List[\<close> or \<open>Tuple[\<close> in front\<close>
  "bracketed r = (startswith r ''List['' \<or> startswith r ''Tuple['')"

definition bracket_start :: "string \<Rightarrow> bool" where
  \<comment> \<open>the same of a normalized label\<close>
  "bracket_start t = (startswith t ''list['' \<or> startswith t ''tuple['')"

definition one_call :: limits where
  \<comment> \<open>room for one call, and for no count\<close>
  "one_call = \<lparr>frames = 1, max_str_digits = 0, maxsize = 0, memory = 0\<rparr>"

definition settles_here :: "string \<Rightarrow> string \<Rightarrow> bool" where
  \<comment> \<open>the mapper settles the label \<open>v\<close> in one call, and returns \<open>v\<close>\<close>
  "settles_here style v = (direct style (norm v) \<and> map_type one_call style v = Inr v)"

definition settles_elsewhere :: "string \<Rightarrow> string \<Rightarrow> bool" where
  \<comment> \<open>the mapper settles the label \<open>v\<close> in one call, or in the call for the text before
      its first comma, and what it returns is not \<open>v\<close>\<close>
  "settles_elsewhere style v =
     (let t = norm v in
      if direct style t then map_type one_call style v \<noteq> Inr v
      else t \<noteq> [] \<and> \<not> contains t '' or ''
        \<and> \<not> startswith t ''list of '' \<and> \<not> startswith t ''array of '' \<and> \<not> startswith t ''tuple of ''
        \<and> t \<notin> set (map fst (base_map style)) \<and> contains t '',''
        \<and> direct style (norm (strip (split1 t '','' ! 0)))
        \<and> map_type one_call style (strip (split1 t '','' ! 0)) \<noteq> Inr v)"


section \<open>Properties\<close>

subsection \<open>The delimiter-aware splitter\<close>

text \<open>
  Claim C5. For every string, \<open>split_types_list\<close> returns, in order, the trimmed
  non-empty segments of the text cut at its top-level commas: the commas that stand in
  no open \<open><>\<close>, \<open>{}\<close> or \<open>()\<close> scope. The segments joined by commas are the
  text again, so nothing else is cut or lost. No scope counter is ever negative, an
  unmatched closer leaving it at zero (\<open>a>,b\<close> is still cut); the text after the last
  cut is the last segment, also inside a scope that was never closed
  (\<open>a, b<c,d\<close>); and \<open>Dict{K,V}, str\<close> gives \<open>Dict{K,V}\<close> and \<open>str\<close>.
\<close>

theorem split_types_list_spec:
  "split_types_list s = filter (\<lambda>p. p \<noteq> []) (map strip (top_level_segments s))
   \<and> join '','' (top_level_segments s) = s
   \<and> (\<forall>e \<in> set (scopes (0, 0, 0) s). scope_nonneg e)
   \<and> split_types_list ''a>,b'' = [''a>'', ''b'']
   \<and> split_types_list ''a, b<c,d'' = [''a'', ''b<c,d'']
   \<and> split_types_list ''Dict{K,V}, str'' = [''Dict{K,V}'', ''str'']"
proof -
  have "scope_nonneg (0, 0, 0)" by (simp add: scope_nonneg_def)
  then have "\<forall>e \<in> set (scopes (0, 0, 0) s). scope_nonneg e" using scopes_nonneg by blast
  moreover have "split_types_list ''a>,b'' = [''a>'', ''b'']" by code_simp
  moreover have "split_types_list ''a, b<c,d'' = [''a'', ''b<c,d'']" by code_simp
  moreover have "split_types_list ''Dict{K,V}, str'' = [''Dict{K,V}'', ''str'']" by code_simp
  ultimately show ?thesis
    by (simp add: split_types_list_segments join_segments_from top_level_segments_def)
qed

theorem split_types_list_spec_witness:
  "split_types_list ''f(a,b)>, {c,d}, '' = [''f(a,b)>'', ''{c,d}'']
   \<and> top_level_segments ''f(a,b)>, {c,d}, '' = [''f(a,b)>'', '' {c,d}'', '' '']
   \<and> scopes (0, 0, 0) ''{}}'' = [(0, 0, 0), (0, 1, 0), (0, 0, 0)]
   \<and> list_all scope_nonneg (scopes (0, 0, 0) ''{}}'')"
proof -
  have segs: "top_level_segments ''f(a,b)>, {c,d}, '' = [''f(a,b)>'', '' {c,d}'', '' '']"
    by code_simp
  have strips: "map strip [''f(a,b)>'', '' {c,d}'', '' ''] = [''f(a,b)>'', ''{c,d}'', '''']"
    by code_simp
  have sc: "scopes (0, 0, 0) ''{}}'' = [(0, 0, 0), (0, 1, 0), (0, 0, 0)]"
    by code_simp
  from split_types_list_spec [of "''f(a,b)>, {c,d}, ''"]
  have "split_types_list ''f(a,b)>, {c,d}, '' = [''f(a,b)>'', ''{c,d}'']"
    by (simp only: segs strips) simp
  moreover from split_types_list_spec [of "''{}}''"]
  have "list_all scope_nonneg (scopes (0, 0, 0) ''{}}'')"
    unfolding list_all_iff by blast
  ultimately show ?thesis using segs sc by simp
qed

subsection \<open>The metadata parser\<close>

text \<open>
  Claim C6. \<open>M:Ns.Cls.#ctor(Ns.A,Ns.B)\<close> gives the container \<open>Ns.Cls\<close>, the
  constructor marker \<open>#ctor\<close> as member and the types \<open>Ns.A\<close>, \<open>Ns.B\<close>;
  \<open>M:Ns.Cls.Foo()\<close> gives no types; and every text that does not start with the
  method marker \<open>M:\<close> gives \<open>(None, None, [])\<close>.
\<close>

theorem parse_help_id_spec:
  "parse_help_id ''M:Ns.Cls.#ctor(Ns.A,Ns.B)'' = Inr (Some ''Ns.Cls'', Some ''#ctor'', [''Ns.A'', ''Ns.B''])
   \<and> parse_help_id ''M:Ns.Cls.Foo()'' = Inr (Some ''Ns.Cls'', Some ''Foo'', [])
   \<and> (\<not> startswith help_id ''M:'' \<longrightarrow> parse_help_id help_id = Inr (None, None, []))"
proof -
  have "parse_help_id ''M:Ns.Cls.#ctor(Ns.A,Ns.B)'' = Inr (Some ''Ns.Cls'', Some ''#ctor'', [''Ns.A'', ''Ns.B''])"
    by code_simp
  moreover have "parse_help_id ''M:Ns.Cls.Foo()'' = Inr (Some ''Ns.Cls'', Some ''Foo'', [])"
    by code_simp
  moreover have "\<not> startswith help_id ''M:'' \<longrightarrow> parse_help_id help_id = Inr (None, None, [])"
    by (simp add: parse_help_id_def)
  ultimately show ?thesis by blast
qed

theorem parse_help_id_spec_witness:
  "\<not> startswith ''T:Ns.Cls'' ''M:'' \<and> parse_help_id ''T:Ns.Cls'' = Inr (None, None, [])
   \<and> \<not> startswith '''' ''M:'' \<and> parse_help_id '''' = Inr (None, None, [])"
proof -
  have a: "\<not> startswith ''T:Ns.Cls'' ''M:''" by (simp add: startswith_def)
  have b: "\<not> startswith '''' ''M:''" by (simp add: startswith_def)
  from a b parse_help_id_spec [of "''T:Ns.Cls''"] parse_help_id_spec [of "''''"]
  show ?thesis by blast
qed

subsection \<open>Characters of the texts the parsers build\<close>

lemma split_first_char:
  "split_first [c] s = (if c \<in> set s
     then Some (takeWhile (\<lambda>x. x \<noteq> c) s, tl (dropWhile (\<lambda>x. x \<noteq> c) s)) else None)"
  by (induction s) auto

lemma split_first_decomp: "split_first sep s = Some (a, b) \<Longrightarrow> s = a @ sep @ b"
proof (induction s arbitrary: a)
  case Nil
  then show ?case by simp
next
  case (Cons c cs)
  show ?case
  proof (cases "prefix sep (c # cs)")
    case True
    then obtain z where z: "c # cs = sep @ z" by (auto simp: prefix_def)
    from True Cons.prems have "a = []" and "b = drop (length sep) (c # cs)" by auto
    then show ?thesis unfolding z by simp
  next
    case False
    with Cons.prems obtain a' where "split_first sep cs = Some (a', b)" and "a = c # a'"
      by (auto split: option.splits)
    with Cons.IH [of a'] show ?thesis by simp
  qed
qed

lemma split_nonempty: "split s sep \<noteq> []"
  by (simp add: split.simps [of s sep] split: option.splits)

lemma split_first_set:
  "split_first sep s = Some (a, b) \<Longrightarrow> set a \<subseteq> set s \<and> set b \<subseteq> set s"
proof (induction s arbitrary: a)
  case Nil
  then show ?case by simp
next
  case (Cons c cs)
  show ?case
  proof (cases "prefix sep (c # cs)")
    case True
    with Cons.prems have "a = []" and "b = drop (length sep) (c # cs)" by auto
    then show ?thesis using set_drop_subset [of "length sep" "c # cs"] by simp
  next
    case False
    with Cons.prems obtain a' where "split_first sep cs = Some (a', b)" and "a = c # a'"
      by (auto split: option.splits)
    with Cons.IH [of a'] show ?thesis by auto
  qed
qed

lemma contains_char: "contains s [c] \<longleftrightarrow> c \<in> set s"
  unfolding contains_def by (induction s) (auto split: option.splits)

lemma set_strip: "set (strip s) \<subseteq> set s"
proof -
  have "set (strip s) \<subseteq> set (dropWhile is_space s)"
    unfolding strip_def using set_dropWhileD [of _ is_space "rev (dropWhile is_space s)"] by auto
  also have "\<dots> \<subseteq> set s" using set_dropWhileD [of _ is_space s] by auto
  finally show ?thesis .
qed

lemma set_split: "p \<in> set (split s sep) \<Longrightarrow> set p \<subseteq> set s"
proof (induction s sep arbitrary: p rule: split.induct)
  case (1 s sep)
  show ?case
  proof (cases "sep = []")
    case True
    with "1.prems" show ?thesis by (simp add: split.simps)
  next
    case False
    show ?thesis
    proof (cases "split_first sep s")
      case None
      with False "1.prems" show ?thesis by (simp add: split.simps)
    next
      case (Some ab)
      obtain a b where ab: "ab = (a, b)" by (cases ab)
      from Some ab have sets: "set a \<subseteq> set s" "set b \<subseteq> set s"
        using split_first_set [of sep s a b] by simp_all
      from False Some ab "1.prems" have "p = a \<or> p \<in> set (split b sep)"
        by (simp add: split.simps [of s sep])
      then show ?thesis
      proof
        assume "p = a" with sets show ?thesis by simp
      next
        assume "p \<in> set (split b sep)"
        with "1.IH" [OF False Some ab [symmetric]] sets show ?thesis by blast
      qed
    qed
  qed
qed

lemma set_join: "set (join sep xs) \<subseteq> set sep \<union> \<Union> (set ` set xs)"
  by (induction sep xs rule: join.induct) auto

lemma set_replace: "set (replace s old new) \<subseteq> set s \<union> set new"
proof -
  have "set (join new (split s old)) \<subseteq> set new \<union> \<Union> (set ` set (split s old))" by (rule set_join)
  moreover have "\<Union> (set ` set (split s old)) \<subseteq> set s" using set_split by blast
  ultimately show ?thesis unfolding replace_def by blast
qed

lemma set_split_ws_loop: "w \<in> set (split_ws_loop cur s) \<Longrightarrow> set w \<subseteq> set cur \<union> set s"
  by (induction cur s arbitrary: w rule: split_ws_loop.induct) (auto split: if_splits)

lemma set_split_ws: "w \<in> set (split_ws s) \<Longrightarrow> set w \<subseteq> set s"
  using set_split_ws_loop [of w "[]" s] by (simp add: split_ws_def)

lemma oneline_chars:
  "set (join '' '' (split_ws (replace t [CHR 0x0A] '' ''))) \<subseteq> set t \<union> {CHR '' ''}"
proof -
  let ?ws = "split_ws (replace t [CHR 0x0A] '' '')"
  have "set (join '' '' ?ws) \<subseteq> set '' '' \<union> \<Union> (set ` set ?ws)" by (rule set_join)
  moreover have "\<Union> (set ` set ?ws) \<subseteq> set (replace t [CHR 0x0A] '' '')" using set_split_ws by blast
  moreover have "set (replace t [CHR 0x0A] '' '') \<subseteq> set t \<union> set '' ''" by (rule set_replace)
  ultimately show ?thesis by auto
qed

lemma strip_all_space: "list_all is_space s \<Longrightarrow> strip s = []"
proof -
  assume "list_all is_space s"
  then have d: "dropWhile is_space s = []" by (induction s) simp_all
  show ?thesis unfolding strip_def d by simp
qed

subsection \<open>The words of a text\<close>

lemma split_ws_loop_word:
  "\<forall>c \<in> set w. \<not> is_space c \<Longrightarrow> split_ws_loop cur (w @ r) = split_ws_loop (rev w @ cur) r"
  by (induction w arbitrary: cur) simp_all

lemma split_ws_loop_spaces:
  "\<forall>c \<in> set z. is_space c \<Longrightarrow> split_ws_loop cur z = (if cur = [] then [] else [rev cur])"
  by (induction z arbitrary: cur) simp_all

lemma split_ws_loop_trailing:
  "\<forall>c \<in> set z. is_space c \<Longrightarrow> split_ws_loop cur (y @ z) = split_ws_loop cur y"
proof (induction y arbitrary: cur)
  case Nil
  then show ?case by (simp add: split_ws_loop_spaces)
next
  case (Cons c y)
  then show ?case by simp
qed

lemma split_ws_loop_leading: "split_ws_loop [] (dropWhile is_space s) = split_ws_loop [] s"
  by (induction s) simp_all

lemma split_ws_strip: "split_ws (strip s) = split_ws s"
proof -
  let ?d = "dropWhile is_space s"
  have "?d = strip s @ rev (takeWhile is_space (rev ?d))"
    unfolding strip_def by (metis rev_append rev_rev_ident takeWhile_dropWhile_id)
  moreover have "\<forall>c \<in> set (rev (takeWhile is_space (rev ?d))). is_space c"
    by (auto dest: set_takeWhileD)
  ultimately have "split_ws_loop [] ?d = split_ws_loop [] (strip s)"
    using split_ws_loop_trailing [of "rev (takeWhile is_space (rev ?d))" "[]" "strip s"] by simp
  then show ?thesis by (simp add: split_ws_def split_ws_loop_leading)
qed

lemma split_ws_loop_tokens:
  "w \<in> set (split_ws_loop cur s) \<Longrightarrow> \<forall>c \<in> set cur. \<not> is_space c
   \<Longrightarrow> w \<noteq> [] \<and> (\<forall>c \<in> set w. \<not> is_space c)"
proof (induction cur s arbitrary: w rule: split_ws_loop.induct)
  case (1 cur)
  show ?case
  proof (cases "cur = []")
    case True
    with "1.prems"(1) show ?thesis by simp
  next
    case False
    with "1.prems"(1) have "w = rev cur" by simp
    with False "1.prems"(2) show ?thesis by simp
  qed
next
  case (2 cur c cs)
  show ?case
  proof (cases "is_space c")
    case False
    with "2.prems"(1) have "w \<in> set (split_ws_loop (c # cur) cs)" by simp
    moreover from False "2.prems"(2) have "\<forall>x \<in> set (c # cur). \<not> is_space x" by simp
    ultimately show ?thesis using False by (rule "2.IH"(3) [rotated])
  next
    case True
    show ?thesis
    proof (cases "cur = []")
      case empty: True
      with True "2.prems"(1) have "w \<in> set (split_ws_loop [] cs)" by simp
      moreover have "\<forall>x \<in> set []. \<not> is_space x" by simp
      ultimately show ?thesis using True empty by (rule "2.IH"(1) [rotated 2])
    next
      case False
      with True "2.prems"(1) have "w = rev cur \<or> w \<in> set (split_ws_loop [] cs)" by simp
      then show ?thesis
      proof
        assume "w = rev cur"
        with False "2.prems"(2) show ?thesis by simp
      next
        assume "w \<in> set (split_ws_loop [] cs)"
        moreover have "\<forall>x \<in> set []. \<not> is_space x" by simp
        ultimately show ?thesis using True False by (rule "2.IH"(2) [rotated 2])
      qed
    qed
  qed
qed

lemma split_ws_tokens: "w \<in> set (split_ws s) \<Longrightarrow> w \<noteq> [] \<and> (\<forall>c \<in> set w. \<not> is_space c)"
  using split_ws_loop_tokens [of w "[]" s] by (simp add: split_ws_def)

lemma split_ws_join:
  "\<forall>w \<in> set ws. w \<noteq> [] \<and> (\<forall>c \<in> set w. \<not> is_space c) \<Longrightarrow> split_ws (join '' '' ws) = ws"
proof (induction "'' ''" ws rule: join.induct)
  case 1
  show ?case by (simp add: split_ws_def)
next
  case (2 x)
  then have "split_ws_loop [] (x @ []) = split_ws_loop (rev x @ []) []"
    by (intro split_ws_loop_word) simp
  with 2 show ?case by (simp add: split_ws_def)
next
  case (3 x y ys)
  then have x: "x \<noteq> []" "\<forall>c \<in> set x. \<not> is_space c" by simp_all
  have sp: "is_space CHR '' ''" by (simp add: is_space_def)
  have "split_ws_loop [] (x @ '' '' @ join '' '' (y # ys))
      = split_ws_loop (rev x @ []) ('' '' @ join '' '' (y # ys))"
    using x(2) by (rule split_ws_loop_word)
  also have "\<dots> = x # split_ws_loop [] (join '' '' (y # ys))" using x(1) sp by simp
  also have "split_ws_loop [] (join '' '' (y # ys)) = y # ys"
    using "3.hyps" "3.prems" by (simp add: split_ws_def)
  finally show ?case by (simp add: split_ws_def)
qed

lemma replace_char: "replace s [a] [b] = map (\<lambda>c. if c = a then b else c) s"
proof (induction s "[a]" rule: split.induct)
  case (1 s)
  show ?case
  proof (cases "a \<in> set s")
    case False
    then have "split s [a] = [s]" by (simp add: split.simps [of s "[a]"] split_first_char)
    moreover from False have "map (\<lambda>c. if c = a then b else c) s = s" by (intro map_idI) auto
    ultimately show ?thesis by (simp add: replace_def)
  next
    case True
    let ?p = "takeWhile (\<lambda>x. x \<noteq> a) s" and ?r = "tl (dropWhile (\<lambda>x. x \<noteq> a) s)"
    from True have sf: "split_first [a] s = Some (?p, ?r)" by (simp add: split_first_char)
    then have sp: "split s [a] = ?p # split ?r [a]" by (simp add: split.simps [of s "[a]"])
    have IH: "replace ?r [a] [b] = map (\<lambda>c. if c = a then b else c) ?r"
      using "1.hyps" [OF _ sf] by simp
    from True have "dropWhile (\<lambda>x. x \<noteq> a) s \<noteq> []" by (simp add: dropWhile_eq_Nil_conv)
    moreover from this have "hd (dropWhile (\<lambda>x. x \<noteq> a) s) = a"
      using hd_dropWhile [of "\<lambda>x. x \<noteq> a" s] by simp
    ultimately have d: "dropWhile (\<lambda>x. x \<noteq> a) s = a # ?r" by (cases "dropWhile (\<lambda>x. x \<noteq> a) s") auto
    have s: "s = ?p @ a # ?r" using d by (metis takeWhile_dropWhile_id)
    have p: "map (\<lambda>c. if c = a then b else c) ?p = ?p" by (intro map_idI) (auto dest: set_takeWhileD)
    have "replace s [a] [b] = ?p @ [b] @ join [b] (split ?r [a])"
      unfolding replace_def sp using split_nonempty [of ?r "[a]"] by (simp add: join_Cons)
    also have "\<dots> = ?p @ [b] @ map (\<lambda>c. if c = a then b else c) ?r" using IH by (simp add: replace_def)
    also have "\<dots> = map (\<lambda>c. if c = a then b else c) (?p @ a # ?r)" using p by simp
    finally show ?thesis using s by simp
  qed
qed

lemma split_ws_loop_map:
  "\<forall>c. is_space (f c) = is_space c \<Longrightarrow> \<forall>c. \<not> is_space c \<longrightarrow> f c = c
   \<Longrightarrow> split_ws_loop cur (map f s) = split_ws_loop cur s"
  by (induction cur s rule: split_ws_loop.induct) simp_all

lemma split_ws_replace_newline: "split_ws (replace s [CHR 0x0A] '' '') = split_ws s"
proof -
  have "\<forall>c. is_space (if c = CHR 0x0A then CHR '' '' else c) = is_space c"
    by (simp add: is_space_def)
  moreover have "\<forall>c. \<not> is_space c \<longrightarrow> (if c = CHR 0x0A then CHR '' '' else c) = c"
    by (simp add: is_space_def)
  ultimately show ?thesis
    unfolding split_ws_def replace_char by (rule split_ws_loop_map)
qed

lemma words_of_oneline:
  "split_ws (strip (join '' '' (split_ws (replace (strip s) [CHR 0x0A] '' '')))) = split_ws s"
proof -
  have "split_ws (replace (strip s) [CHR 0x0A] '' '') = split_ws s"
    by (simp add: split_ws_replace_newline split_ws_strip)
  moreover have "split_ws (join '' '' (split_ws s)) = split_ws s"
    using split_ws_tokens by (intro split_ws_join) blast
  ultimately show ?thesis by (simp add: split_ws_strip)
qed

lemma contains_append: "sub \<noteq> [] \<Longrightarrow> contains (a @ sub @ b) sub"
  unfolding contains_def by (induction a) (auto simp: neq_Nil_conv)

lemma split_ws_loop_space_cut:
  "split_ws_loop cur (a @ CHR '' '' # b) = split_ws_loop cur a @ split_ws_loop [] b"
  by (induction a arbitrary: cur) (simp_all add: is_space_def)

lemma split_ws_padded: "split_ws ('' '' @ s @ '' '') = split_ws s"
proof -
  have "split_ws ('' '' @ s @ '' '') = split_ws_loop [] ([] @ CHR '' '' # (s @ '' ''))"
    by (simp add: split_ws_def)
  also have "\<dots> = split_ws_loop [] (s @ CHR '' '' # [])"
    unfolding split_ws_loop_space_cut by simp
  also have "\<dots> = split_ws_loop [] s" unfolding split_ws_loop_space_cut by simp
  finally show ?thesis by (simp add: split_ws_def)
qed

lemma split_ws_static: "''static'' \<in> set (split_ws (a @ '' static '' @ b))"
proof -
  have w: "split_ws_loop [] ''static'' = [''static'']" by code_simp
  have "split_ws (a @ '' static '' @ b) = split_ws_loop [] (a @ CHR '' '' # (''static'' @ CHR '' '' # b))"
    by (simp add: split_ws_def)
  also have "\<dots> = split_ws_loop [] a @ split_ws_loop [] ''static'' @ split_ws_loop [] b"
    unfolding split_ws_loop_space_cut by simp
  finally show ?thesis unfolding w by simp
qed

lemma padded_join:
  "ws \<noteq> [] \<Longrightarrow> '' '' @ join '' '' ws @ '' '' = concat (map (\<lambda>w. CHR '' '' # w) ws) @ '' ''"
  by (induction "'' ''" ws rule: join.induct) simp_all

lemma static_word:
  assumes "\<forall>w \<in> set ws. w \<noteq> [] \<and> (\<forall>c \<in> set w. \<not> is_space c)"
  shows "contains ('' '' @ join '' '' ws @ '' '') '' static '' \<longleftrightarrow> ''static'' \<in> set ws"
proof
  assume "contains ('' '' @ join '' '' ws @ '' '') '' static ''"
  then obtain a b where "split_first '' static '' ('' '' @ join '' '' ws @ '' '') = Some (a, b)"
    by (auto simp: contains_def)
  then have "'' '' @ join '' '' ws @ '' '' = a @ '' static '' @ b" by (rule split_first_decomp)
  then have "''static'' \<in> set (split_ws ('' '' @ join '' '' ws @ '' ''))"
    using split_ws_static [of a b] by simp
  then show "''static'' \<in> set ws"
    unfolding split_ws_padded using split_ws_join [OF assms] by simp
next
  assume "''static'' \<in> set ws"
  then obtain xs ys where ws: "ws = xs @ ''static'' # ys" by (auto dest: split_list)
  obtain r where r: "concat (map (\<lambda>w. CHR '' '' # w) ys) @ '' '' = CHR '' '' # r"
    by (cases ys) simp_all
  have "'' '' @ join '' '' ws @ '' '' = concat (map (\<lambda>w. CHR '' '' # w) (xs @ ''static'' # ys)) @ '' ''"
    unfolding ws by (rule padded_join) simp
  also have "\<dots>
      = concat (map (\<lambda>w. CHR '' '' # w) xs) @ '' static'' @ (concat (map (\<lambda>w. CHR '' '' # w) ys) @ '' '')"
    by simp
  also have "\<dots> = concat (map (\<lambda>w. CHR '' '' # w) xs) @ '' static '' @ r"
    unfolding r by simp
  finally show "contains ('' '' @ join '' '' ws @ '' '') '' static ''"
    using contains_append [of "'' static ''" "concat (map (\<lambda>w. CHR '' '' # w) xs)" r] by simp
qed

lemma no_paren_no_params:
  assumes "CHR ''('' \<notin> set cs_text \<or> CHR '')'' \<notin> set cs_text"
  shows "fst (snd (snd (parse_csharp_signature cs_text container_simple))) = []"
proof (cases "cs_text = []")
  case True
  then show ?thesis by (simp add: parse_csharp_signature_def)
next
  case False
  define tx where "tx = (case find_index (strip cs_text) '')'' of
      Some i \<Rightarrow> take (i + 1) (strip cs_text) | None \<Rightarrow> strip cs_text)"
  define oneline where "oneline = join '' '' (split_ws (replace tx [CHR 0x0A] '' ''))"
  have "set tx \<subseteq> set (strip cs_text)"
    unfolding tx_def by (auto split: option.splits dest: in_set_takeD)
  then have "set tx \<subseteq> set cs_text" using set_strip by blast
  then have "set oneline \<subseteq> set cs_text \<union> {CHR '' ''}"
    unfolding oneline_def using oneline_chars [of tx] by blast
  with assms have "CHR ''('' \<notin> set oneline \<or> CHR '')'' \<notin> set oneline" by auto
  then have "\<not> (contains oneline ''('' \<and> contains oneline '')'')"
    by (simp add: contains_char)
  with False show ?thesis
    unfolding parse_csharp_signature_def Let_def tx_def [symmetric] oneline_def [symmetric]
    by (auto split: prod.splits)
qed

lemma blank_text_nothing:
  assumes "list_all is_space cs_text"
  shows "parse_csharp_signature cs_text container_simple = (None, None, [], False)"
proof (cases "cs_text = []")
  case True
  then show ?thesis by (simp add: parse_csharp_signature_def)
next
  case False
  have s: "strip cs_text = []" using assms by (rule strip_all_space)
  have r: "replace [] [CHR 0x0A] '' '' = []" by (simp add: replace_def split.simps)
  have c: "\<not> contains ''  '' '' static ''" by code_simp
  have c2: "\<not> contains '''' ''(''" by code_simp
  show ?thesis
    unfolding parse_csharp_signature_def Let_def s
    by (simp add: False find_index_def r split_ws_def c c2 strip_Nil)
qed

lemma no_close_paren_words:
  assumes "CHR '')'' \<notin> set cs_text"
  shows "parse_csharp_signature cs_text container_simple =
     (let ws = filter (\<lambda>t. t \<notin> set CS_ACCESS_KWS \<and> t \<notin> set CS_MODIFIER_KWS) (split_ws cs_text)
      in (if 2 \<le> length ws then Some (ws ! (length ws - 2)) else None,
          if ws = [] then None else Some (last ws),
          [],
          ''static'' \<in> set (split_ws cs_text)))"
proof (cases "cs_text = []")
  case True
  then show ?thesis by (simp add: parse_csharp_signature_def split_ws_def)
next
  case False
  define W where "W = split_ws cs_text"
  define ws where "ws = filter (\<lambda>t. t \<notin> set CS_ACCESS_KWS \<and> t \<notin> set CS_MODIFIER_KWS) W"
  have tok: "\<forall>w \<in> set W. w \<noteq> [] \<and> (\<forall>c \<in> set w. \<not> is_space c)"
    unfolding W_def using split_ws_tokens by blast
  from assms have "CHR '')'' \<notin> set (strip cs_text)" using set_strip by blast
  then have fi: "find_index (strip cs_text) '')'' = None"
    by (simp add: find_index_def split_first_char)
  have one: "join '' '' (split_ws (replace (strip cs_text) [CHR 0x0A] '' '')) = join '' '' W"
    by (simp add: W_def split_ws_replace_newline split_ws_strip)
  have "set (join '' '' W) \<subseteq> set '' '' \<union> \<Union> (set ` set W)" by (rule set_join)
  moreover have "\<Union> (set ` set W) \<subseteq> set cs_text" unfolding W_def using set_split_ws by blast
  ultimately have "CHR '')'' \<notin> set (join '' '' W)" using assms by auto
  then have np: "\<not> contains (join '' '' W) '')''" by (simp add: contains_char)
  have st: "contains ('' '' @ join '' '' W @ '' '') '' static '' \<longleftrightarrow> ''static'' \<in> set W"
    using tok by (rule static_word)
  have hd: "split_ws (strip (join '' '' W)) = W"
    using tok by (simp add: split_ws_strip split_ws_join)
  have "parse_csharp_signature cs_text container_simple =
      (if length ws = 1 then None else if 2 \<le> length ws then Some (ws ! (length ws - 2)) else None,
       if length ws = 1 then Some (ws ! 0) else if 2 \<le> length ws then Some (ws ! (length ws - 1)) else None,
       [], ''static'' \<in> set W)"
    unfolding parse_csharp_signature_def Let_def fi option.case one
    using False np st by (simp add: hd ws_def)
  also have "\<dots> = (if 2 \<le> length ws then Some (ws ! (length ws - 2)) else None,
       if ws = [] then None else Some (last ws), [], ''static'' \<in> set W)"
    by (cases ws rule: rev_cases) (auto simp: nth_append Suc_le_eq)
  finally show ?thesis unfolding ws_def W_def Let_def .
qed

subsection \<open>The code-sample parser\<close>

text \<open>
  Claim C4, as the code has it. Empty text, and text of whitespace alone, gives
  \<open>(None, None, [], False)\<close>. Text in which \<open>(\<close> or \<open>)\<close> is missing gives no
  parameter names. Text with no \<open>)\<close> is read as a head: of its words that are no
  access or modifier keyword the last is the method name and the one before it the
  return type, and the static flag says whether \<open>static\<close> is one of its words.
\<close>

theorem parse_csharp_signature_shortfall:
  "parse_csharp_signature '''' container_simple = (None, None, [], False)
   \<and> (list_all is_space cs_text \<longrightarrow>
        parse_csharp_signature cs_text container_simple = (None, None, [], False))
   \<and> (CHR ''('' \<notin> set cs_text \<or> CHR '')'' \<notin> set cs_text \<longrightarrow>
        fst (snd (snd (parse_csharp_signature cs_text container_simple))) = [])
   \<and> (CHR '')'' \<notin> set cs_text \<longrightarrow>
        parse_csharp_signature cs_text container_simple =
          (let ws = filter (\<lambda>t. t \<notin> set CS_ACCESS_KWS \<and> t \<notin> set CS_MODIFIER_KWS) (split_ws cs_text)
           in (if 2 \<le> length ws then Some (ws ! (length ws - 2)) else None,
               if ws = [] then None else Some (last ws),
               [],
               ''static'' \<in> set (split_ws cs_text))))"
  using no_paren_no_params [of cs_text container_simple] blank_text_nothing [of cs_text container_simple]
    no_close_paren_words [of cs_text container_simple]
  by (simp add: parse_csharp_signature_def)

theorem parse_csharp_signature_shortfall_witness:
  "list_all is_space ''  ''
   \<and> parse_csharp_signature ''  '' None = (None, None, [], False)
   \<and> CHR ''('' \<notin> set ''void Run''
   \<and> fst (snd (snd (parse_csharp_signature ''void Run'' None))) = []
   \<and> CHR '')'' \<notin> set ''static void Run''
   \<and> parse_csharp_signature ''static void Run'' None = (Some ''void'', Some ''Run'', [], True)"
proof -
  have a: "list_all is_space ''  ''" by code_simp
  have b: "CHR ''('' \<notin> set ''void Run''" by simp
  have c: "CHR '')'' \<notin> set ''static void Run''" by simp
  have d: "(let ws = filter (\<lambda>t. t \<notin> set CS_ACCESS_KWS \<and> t \<notin> set CS_MODIFIER_KWS)
                       (split_ws ''static void Run'')
            in (if 2 \<le> length ws then Some (ws ! (length ws - 2)) else None,
                if ws = [] then None else Some (last ws),
                [] :: string list,
                ''static'' \<in> set (split_ws ''static void Run'')))
           = (Some ''void'', Some ''Run'', [], True)"
    by code_simp
  from c parse_csharp_signature_shortfall [of None "''static void Run''"]
  have "parse_csharp_signature ''static void Run'' None = (Some ''void'', Some ''Run'', [], True)"
    unfolding d by blast
  with a b c parse_csharp_signature_shortfall [of None "''  ''"]
    parse_csharp_signature_shortfall [of None "''void Run''"]
  show ?thesis by blast
qed

text \<open>
  The claim as the specification states it fails: text with no parenthesis is parsed
  like any other head, so a return type, a name and the static flag come back.
\<close>

theorem parse_csharp_signature_shortfall_counterexample:
  "CHR ''('' \<notin> set ''public static int Foo'' \<and> CHR '')'' \<notin> set ''public static int Foo''
   \<and> parse_csharp_signature ''public static int Foo'' None = (Some ''int'', Some ''Foo'', [], True)"
proof -
  have "parse_csharp_signature ''public static int Foo'' None = (Some ''int'', Some ''Foo'', [], True)"
    by code_simp
  then show ?thesis by simp
qed

subsection \<open>The signature assembler\<close>

lemma typed_params_placeholders:
  assumes "length param_names \<noteq> length param_types"
  shows "typed_params container_fqn param_types param_names =
     map (\<lambda>i. ''arg'' @ str_nat (i + 1) @ '': '' @
            map_dotnet_to_python (param_types ! i) container_fqn (container_simple_of container_fqn))
         [0..<length param_types]"
  using assms by (auto simp: typed_params_def Let_def zip_map_map intro!: nth_equalityI)

text \<open>
  Claim C7. When the count of the names read from the sample is not the count of the
  types read from the metadata, the parameters of the line are \<open>arg1\<close>, ...,
  \<open>argN\<close>, one for each of the \<open>N\<close> types and each with its mapped type, after the
  \<open>self\<close> entry when there is one: no name of the sample is used.
\<close>

theorem arity_reconciliation:
  assumes "length param_names \<noteq> length param_types"
  shows "build_signature_line container_fqn method_raw param_types cs_return_type cs_method_name
           param_names is_static =
         fmt container_fqn @ ''.'' @ fmt (py_method_name container_fqn method_raw cs_method_name) @ ''(''
         @ join '', ''
             ((if py_method_name container_fqn method_raw cs_method_name = Some ''__init__''
                  \<or> (\<not> is_static \<and> truthy cs_method_name) then [''self''] else [])
              @ map (\<lambda>i. ''arg'' @ str_nat (i + 1) @ '': '' @
                       map_dotnet_to_python (param_types ! i) container_fqn (container_simple_of container_fqn))
                    [0..<length param_types])
         @ '') -> '' @ py_return container_fqn method_raw cs_return_type cs_method_name"
  using typed_params_placeholders [OF assms, of container_fqn]
  by (simp add: build_signature_line_def signature_params_def)

theorem arity_reconciliation_witness:
  "length [''a''] \<noteq> length [''System.Int32'', ''System.Double'']
   \<and> build_signature_line (Some ''Ns.Cls'') (Some ''Bar'') [''System.Int32'', ''System.Double'']
        (Some ''Cls'') (Some ''Bar'') [''a''] True
      = ''Ns.Cls.Bar(arg1: int, arg2: float) -> Ns.Cls''"
proof -
  have h: "length [''a''] \<noteq> length [''System.Int32'', ''System.Double'']" by simp
  have "fmt (Some ''Ns.Cls'') @ ''.'' @ fmt (py_method_name (Some ''Ns.Cls'') (Some ''Bar'') (Some ''Bar'')) @ ''(''
         @ join '', ''
             ((if py_method_name (Some ''Ns.Cls'') (Some ''Bar'') (Some ''Bar'') = Some ''__init__''
                  \<or> (\<not> True \<and> truthy (Some ''Bar'')) then [''self''] else [])
              @ map (\<lambda>i. ''arg'' @ str_nat (i + 1) @ '': '' @
                       map_dotnet_to_python ([''System.Int32'', ''System.Double''] ! i) (Some ''Ns.Cls'')
                         (container_simple_of (Some ''Ns.Cls'')))
                    [0..<length [''System.Int32'', ''System.Double'']])
         @ '') -> '' @ py_return (Some ''Ns.Cls'') (Some ''Bar'') (Some ''Cls'') (Some ''Bar'')
        = ''Ns.Cls.Bar(arg1: int, arg2: float) -> Ns.Cls''"
    by code_simp
  with arity_reconciliation [OF h, of "Some ''Ns.Cls''" "Some ''Bar''" "Some ''Cls''" "Some ''Bar''" True]
  show ?thesis using h by simp
qed

text \<open>
  Claim C8, as the code has it. A record that is a constructor (the metadata names
  \<open>#ctor\<close>, or the sample's name is the simple name of the container) is emitted as
  \<open>__init__\<close>, with \<open>self\<close> first and the return label \<open>None\<close>, whatever return
  type the sample gave. A record that is not static has \<open>self\<close> first when the sample
  gave a method name. When the sample gave no name, a record that is not a constructor
  (and that the metadata does not name \<open>__init__\<close>) gets no \<open>self\<close>.
\<close>

theorem constructor_and_instance_emission:
  "(is_constructor method_raw cs_method_name (container_simple_of container_fqn) \<longrightarrow>
      build_signature_line container_fqn method_raw param_types cs_return_type cs_method_name
        param_names is_static
      = fmt container_fqn @ ''.__init__(''
        @ join '', '' (''self'' # typed_params container_fqn param_types param_names) @ '') -> None'')
   \<and> (\<not> is_static \<and> truthy cs_method_name \<longrightarrow>
      signature_params container_fqn method_raw param_types cs_method_name param_names is_static
      = ''self'' # typed_params container_fqn param_types param_names)
   \<and> (\<not> truthy cs_method_name \<and> method_raw \<noteq> Some ''#ctor'' \<and> method_raw \<noteq> Some ''__init__'' \<longrightarrow>
      signature_params container_fqn method_raw param_types cs_method_name param_names is_static
      = typed_params container_fqn param_types param_names)"
  by (auto simp: build_signature_line_def signature_params_def py_method_name_def py_return_def
        is_constructor_def py_or_def fmt_def)

theorem constructor_and_instance_emission_witness:
  "is_constructor (Some ''#ctor'') (Some ''Cls'') (container_simple_of (Some ''Ns.Cls''))
   \<and> build_signature_line (Some ''Ns.Cls'') (Some ''#ctor'') [''System.Int32''] (Some ''void'')
        (Some ''Cls'') [''a''] False
      = ''Ns.Cls.__init__(self, a: int) -> None''
   \<and> truthy (Some ''Bar'')
   \<and> signature_params (Some ''Ns.Cls'') (Some ''Bar'') [''System.Int32''] (Some ''Bar'') [''a''] False
      = [''self'', ''a: int'']
   \<and> \<not> truthy None
   \<and> signature_params (Some ''Ns.Cls'') (Some ''Bar'') [''System.Int32''] None [] False
      = [''arg1: int'']"
proof -
  have c: "is_constructor (Some ''#ctor'') (Some ''Cls'') (container_simple_of (Some ''Ns.Cls''))"
    by (simp add: is_constructor_def)
  have t: "truthy (Some ''Bar'')" "\<not> truthy None" by (simp_all add: truthy_def)
  have p1: "typed_params (Some ''Ns.Cls'') [''System.Int32''] [''a''] = [''a: int'']" by code_simp
  have p2: "typed_params (Some ''Ns.Cls'') [''System.Int32''] [] = [''arg1: int'']" by code_simp
  from c t p1 p2
    constructor_and_instance_emission [of "Some ''#ctor''" "Some ''Cls''" "Some ''Ns.Cls''"
      "[''System.Int32'']" "Some ''void''" "[''a'']" False]
    constructor_and_instance_emission [of "Some ''Bar''" "Some ''Bar''" "Some ''Ns.Cls''"
      "[''System.Int32'']" None "[''a'']" False]
    constructor_and_instance_emission [of "Some ''Bar''" None "Some ''Ns.Cls''"
      "[''System.Int32'']" None "[]" False]
  show ?thesis by (simp add: fmt_def)
qed

text \<open>
  The claim as the specification states it fails: a record that is neither static nor
  a constructor, but whose page had no code sample, is emitted without \<open>self\<close>. The
  metadata \<open>M:Ns.Cls.Foo(System.Int32)\<close> alone gives such a record.
\<close>

theorem constructor_and_instance_emission_counterexample:
  "\<not> is_constructor (Some ''Foo'') None (container_simple_of (Some ''Ns.Cls''))
   \<and> signature_params (Some ''Ns.Cls'') (Some ''Foo'') [''System.Int32''] None [] False = [''arg1: int'']
   \<and> build_signature_line (Some ''Ns.Cls'') (Some ''Foo'') [''System.Int32''] None None [] False
      = ''Ns.Cls.Foo(arg1: int) -> None''
   \<and> process_file (Some ''M:Ns.Cls.Foo(System.Int32)'') None = Inr (Some ''Ns.Cls.Foo(arg1: int) -> None'')"
proof -
  have "\<not> is_constructor (Some ''Foo'') None (container_simple_of (Some ''Ns.Cls''))"
    by (simp add: is_constructor_def truthy_def)
  moreover have "signature_params (Some ''Ns.Cls'') (Some ''Foo'') [''System.Int32''] None [] False = [''arg1: int'']"
    by code_simp
  moreover have "build_signature_line (Some ''Ns.Cls'') (Some ''Foo'') [''System.Int32''] None None [] False
      = ''Ns.Cls.Foo(arg1: int) -> None''"
    by code_simp
  moreover have "process_file (Some ''M:Ns.Cls.Foo(System.Int32)'') None = Inr (Some ''Ns.Cls.Foo(arg1: int) -> None'')"
    by code_simp
  ultimately show ?thesis by blast
qed

subsection \<open>The pipeline\<close>

text \<open>
  Claim C1. The metadata \<open>M:Rhino.Display.ColorHSL.CreateFromLCH(Rhino.Display.ColorLCH)\<close>
  with the sample \<open>public static ColorHSL CreateFromLCH( ColorLCH lch )\<close> gives the line
  \<open>Rhino.Display.ColorHSL.CreateFromLCH(lch: Rhino.Display.ColorLCH) -> Rhino.Display.ColorHSL\<close>.
\<close>

theorem pipeline_example:
  "process_file (Some ''M:Rhino.Display.ColorHSL.CreateFromLCH(Rhino.Display.ColorLCH)'')
                (Some ''public static ColorHSL CreateFromLCH( ColorLCH lch )'')
   = Inr (Some ''Rhino.Display.ColorHSL.CreateFromLCH(lch: Rhino.Display.ColorLCH) -> Rhino.Display.ColorHSL'')"
  by code_simp

text \<open>The stages of that run, one by one.\<close>

theorem pipeline_example_witness:
  "parse_help_id ''M:Rhino.Display.ColorHSL.CreateFromLCH(Rhino.Display.ColorLCH)''
     = Inr (Some ''Rhino.Display.ColorHSL'', Some ''CreateFromLCH'', [''Rhino.Display.ColorLCH''])
   \<and> parse_csharp_signature ''public static ColorHSL CreateFromLCH( ColorLCH lch )'' (Some ''ColorHSL'')
     = (Some ''ColorHSL'', Some ''CreateFromLCH'', [''lch''], True)
   \<and> map_dotnet_to_python ''ColorHSL'' (Some ''Rhino.Display.ColorHSL'') (Some ''ColorHSL'')
     = ''Rhino.Display.ColorHSL''
   \<and> build_signature_line (Some ''Rhino.Display.ColorHSL'') (Some ''CreateFromLCH'')
        [''Rhino.Display.ColorLCH''] (Some ''ColorHSL'') (Some ''CreateFromLCH'') [''lch''] True
     = ''Rhino.Display.ColorHSL.CreateFromLCH(lch: Rhino.Display.ColorLCH) -> Rhino.Display.ColorHSL''"
proof -
  have a: "parse_help_id ''M:Rhino.Display.ColorHSL.CreateFromLCH(Rhino.Display.ColorLCH)''
     = Inr (Some ''Rhino.Display.ColorHSL'', Some ''CreateFromLCH'', [''Rhino.Display.ColorLCH''])"
    by code_simp
  have b: "parse_csharp_signature ''public static ColorHSL CreateFromLCH( ColorLCH lch )'' (Some ''ColorHSL'')
     = (Some ''ColorHSL'', Some ''CreateFromLCH'', [''lch''], True)"
    by code_simp
  have c: "map_dotnet_to_python ''ColorHSL'' (Some ''Rhino.Display.ColorHSL'') (Some ''ColorHSL'')
     = ''Rhino.Display.ColorHSL''"
    by code_simp
  have d: "container_simple_of (Some ''Rhino.Display.ColorHSL'') = Some ''ColorHSL''"
    by code_simp
  from pipeline_example a b d
  have "build_signature_line (Some ''Rhino.Display.ColorHSL'') (Some ''CreateFromLCH'')
        [''Rhino.Display.ColorLCH''] (Some ''ColorHSL'') (Some ''CreateFromLCH'') [''lch''] True
     = ''Rhino.Display.ColorHSL.CreateFromLCH(lch: Rhino.Display.ColorLCH) -> Rhino.Display.ColorHSL''"
    by (simp add: process_file_def py_or_def truthy_def fmt_def)
  with a b c show ?thesis by blast
qed

lemma parse_help_id_no_dot: "parse_help_id ''M:Foo'' = Inl ValueError"
  by code_simp

lemma contains_set: "contains s sub \<Longrightarrow> set sub \<subseteq> set s"
proof -
  assume "contains s sub"
  then obtain a b where "split_first sub s = Some (a, b)" by (auto simp: contains_def)
  then have "s = a @ sub @ b" by (rule split_first_decomp)
  then have "set s = set a \<union> set sub \<union> set b" by (metis set_append sup_assoc)
  then show ?thesis by blast
qed

lemma rsplit1_char:
  "rsplit1 s [c] = (if c \<in> set s
     then [rev (tl (dropWhile (\<lambda>x. x \<noteq> c) (rev s))), rev (takeWhile (\<lambda>x. x \<noteq> c) (rev s))]
     else [s])"
  by (simp add: rsplit1_def split_last_def split_first_char)

lemma parse_help_id_raises:
  "parse_help_id help_id = Inl e \<longleftrightarrow>
     e = ValueError \<and> startswith help_id ''M:''
     \<and> CHR ''.'' \<notin> set (takeWhile (\<lambda>c. c \<noteq> CHR ''('') (drop 2 help_id))"
proof (cases "help_id = [] \<or> \<not> startswith help_id ''M:''")
  case True
  then show ?thesis by (auto simp: parse_help_id_def startswith_def)
next
  case False
  define body where "body = drop 2 help_id"
  define left where "left = takeWhile (\<lambda>c. c \<noteq> CHR ''('') body"
  have l: "(if contains body ''('' then split1 body ''('' ! 0 else body) = left"
  proof (cases "CHR ''('' \<in> set body")
    case True
    then show ?thesis by (simp add: contains_def split1_def split_first_char left_def)
  next
    case False
    then have "left = body" unfolding left_def by auto
    moreover from False have "\<not> contains body ''(''" by (simp add: contains_def split_first_char)
    ultimately show ?thesis by simp
  qed
  have ctor: "CHR ''.'' \<in> set left" if "contains left ''.#ctor''"
    using contains_set [OF that] by simp
  have "parse_help_id help_id = Inl e \<longleftrightarrow> e = ValueError \<and> CHR ''.'' \<notin> set left"
  proof (cases "contains body ''(''")
    case True
    with False l have left_eq: "split1 body ''('' ! 0 = left" by simp
    show ?thesis
      using False True ctor
      unfolding parse_help_id_def Let_def body_def [symmetric]
      by (cases e) (auto simp: left_eq rsplit1_char [of left])
  next
    case no_paren: False
    with l have left_eq: "body = left" by simp
    show ?thesis
      using False no_paren ctor
      unfolding parse_help_id_def Let_def body_def [symmetric]
      by (cases e) (auto simp: left_eq [symmetric] rsplit1_char [of body])
  qed
  with False show ?thesis by (simp add: left_def body_def)
qed

lemma process_file_raises_iff:
  "process_file help_id cs_text = Inl e \<longleftrightarrow>
     (\<exists>h. help_id = Some h \<and> e = ValueError \<and> startswith h ''M:''
        \<and> CHR ''.'' \<notin> set (takeWhile (\<lambda>c. c \<noteq> CHR ''('') (drop 2 h)))"
proof -
  have "process_file help_id cs_text = Inl e \<longleftrightarrow> parse_help_id (fmt (py_or help_id (Some ''''))) = Inl e"
    by (auto simp: process_file_def split: sum.splits prod.splits)
  also have "\<dots> \<longleftrightarrow> e = ValueError \<and> startswith (fmt (py_or help_id (Some ''''))) ''M:''
     \<and> CHR ''.'' \<notin> set (takeWhile (\<lambda>c. c \<noteq> CHR ''('') (drop 2 (fmt (py_or help_id (Some '''')))))"
    by (rule parse_help_id_raises)
  also have "\<dots> \<longleftrightarrow> (\<exists>h. help_id = Some h \<and> e = ValueError \<and> startswith h ''M:''
        \<and> CHR ''.'' \<notin> set (takeWhile (\<lambda>c. c \<noteq> CHR ''('') (drop 2 h)))"
    by (cases help_id) (auto simp: py_or_def truthy_def fmt_def startswith_def)
  finally show ?thesis .
qed

text \<open>
  Claim C2 fails on the code. \<open>process_file\<close> raises \<open>ValueError\<close> for exactly the
  pages whose metadata starts with \<open>M:\<close> and has no dot in the part before its first
  \<open>(\<close>, whatever their code sample is: \<open>parse_help_id\<close> then unpacks a list of one
  text into two names, and \<open>process_file\<close> calls it outside its \<open>try\<close>, so the
  exception leaves \<open>process_file\<close> and ends the run. The metadata \<open>M:Foo\<close> is such a
  one. No other page makes \<open>process_file\<close> raise.
\<close>

theorem process_file_raises:
  "(process_file help_id cs_text = Inl e \<longleftrightarrow>
      (\<exists>h. help_id = Some h \<and> e = ValueError \<and> startswith h ''M:''
         \<and> CHR ''.'' \<notin> set (takeWhile (\<lambda>c. c \<noteq> CHR ''('') (drop 2 h))))
   \<and> process_file (Some ''M:Foo'') cs_text = Inl ValueError"
proof -
  have "process_file (Some ''M:Foo'') cs_text = Inl ValueError"
    by (simp add: process_file_def parse_help_id_no_dot py_or_def truthy_def fmt_def)
  with process_file_raises_iff [of help_id cs_text e] show ?thesis by blast
qed

theorem process_file_raises_witness:
  "process_file (Some ''M:Foo'') None = Inl ValueError
   \<and> process_file (Some ''M:Foo'') (Some ''public void Foo( int a )'') = Inl ValueError
   \<and> startswith ''M:Run(System.Int32)'' ''M:''
   \<and> CHR ''.'' \<notin> set (takeWhile (\<lambda>c. c \<noteq> CHR ''('') (drop 2 ''M:Run(System.Int32)''))
   \<and> process_file (Some ''M:Run(System.Int32)'') None = Inl ValueError"
proof -
  have a: "startswith ''M:Run(System.Int32)'' ''M:''" by (simp add: startswith_def)
  have b: "CHR ''.'' \<notin> set (takeWhile (\<lambda>c. c \<noteq> CHR ''('') (drop 2 ''M:Run(System.Int32)''))" by simp
  from a b process_file_raises [of "Some ''M:Run(System.Int32)''" None ValueError]
  have "process_file (Some ''M:Run(System.Int32)'') None = Inl ValueError" by blast
  with a b process_file_raises [of _ None] process_file_raises [of _ "Some ''public void Foo( int a )''"]
  show ?thesis by blast
qed

subsection \<open>Trimming twice\<close>

lemma strip_parts: "\<exists>z. dropWhile is_space s = strip s @ z"
proof -
  let ?d = "dropWhile is_space s"
  have "?d = rev (dropWhile is_space (rev ?d)) @ rev (takeWhile is_space (rev ?d))"
    by (metis rev_append rev_rev_ident takeWhile_dropWhile_id)
  then show ?thesis unfolding strip_def by blast
qed

lemma strip_hd: "strip s \<noteq> [] \<Longrightarrow> \<not> is_space (hd (strip s))"
proof -
  assume ne: "strip s \<noteq> []"
  obtain z where z: "dropWhile is_space s = strip s @ z" using strip_parts by blast
  with ne have "dropWhile is_space s \<noteq> []" by simp
  then have "\<not> is_space (hd (dropWhile is_space s))" by (rule hd_dropWhile)
  with z ne show ?thesis by simp
qed

lemma strip_last: "strip s \<noteq> [] \<Longrightarrow> \<not> is_space (last (strip s))"
proof -
  assume ne: "strip s \<noteq> []"
  let ?e = "dropWhile is_space (rev (dropWhile is_space s))"
  from ne have "?e \<noteq> []" by (simp add: strip_def)
  then have "\<not> is_space (hd ?e)" by (rule hd_dropWhile)
  moreover have "last (strip s) = hd ?e" using \<open>?e \<noteq> []\<close> by (simp add: strip_def last_rev)
  ultimately show ?thesis by simp
qed

lemma strip_id: "s \<noteq> [] \<Longrightarrow> \<not> is_space (hd s) \<Longrightarrow> \<not> is_space (last s) \<Longrightarrow> strip s = s"
proof -
  assume ne: "s \<noteq> []" and h: "\<not> is_space (hd s)" and l: "\<not> is_space (last s)"
  from ne h have d: "dropWhile is_space s = s" by (cases s) simp_all
  from ne l have "dropWhile is_space (rev s) = rev s" by (cases s rule: rev_cases) simp_all
  with d show ?thesis by (simp add: strip_def)
qed

lemma strip_strip: "strip (strip s) = strip s"
proof (cases "strip s = []")
  case True
  then show ?thesis by (simp add: strip_Nil)
next
  case False
  then show ?thesis using strip_hd strip_last by (intro strip_id) auto
qed

lemma norm_strip: "norm (strip s) = norm s"
  by (simp add: norm_def strip_strip)

subsection \<open>The free-text mapper within the interpreter's limits\<close>

lemma length_lower: "length (lower s) = length s"
  by (simp add: lower_def)

lemma length_norm: "length (norm s) \<le> length s"
  by (simp add: norm_def length_lower length_strip)

lemma split1_first_shorter: "contains t sep \<Longrightarrow> sep \<noteq> [] \<Longrightarrow> length (split1 t sep ! 0) < length t"
proof -
  assume c: "contains t sep" and ne: "sep \<noteq> []"
  then obtain a b where ab: "split_first sep t = Some (a, b)" by (auto simp: contains_def)
  from split_first_length [OF ab ne] ne have "length a < length t" by (cases sep) auto
  with ab show ?thesis by (simp add: split1_def)
qed

lemma item1_split1_shorter: "item1 (split1 t sep) = Inr x \<Longrightarrow> sep \<noteq> [] \<Longrightarrow> length x < length t"
proof -
  assume i: "item1 (split1 t sep) = Inr x" and ne: "sep \<noteq> []"
  then obtain a where ab: "split_first sep t = Some (a, x)"
    by (auto simp: item1_def split1_def split: option.splits)
  from split_first_length [OF ab ne] ne show ?thesis by (cases sep) auto
qed

lemma match_tuple_length: "match_tuple inner = Some (digits, base) \<Longrightarrow> length base \<le> length inner"
proof -
  assume "match_tuple inner = Some (digits, base)"
  then have "base = takeWhile is_tuple_base_char (dropWhile is_space (dropWhile is_digit inner))"
    by (auto simp: match_tuple_def Let_def split: if_splits)
  moreover have "length (takeWhile is_tuple_base_char (dropWhile is_space (dropWhile is_digit inner)))
      \<le> length (dropWhile is_space (dropWhile is_digit inner))" by (rule length_takeWhile_le)
  moreover have "length (dropWhile is_space (dropWhile is_digit inner)) \<le> length (dropWhile is_digit inner)"
    by (rule length_dropWhile_le)
  moreover have "length (dropWhile is_digit inner) \<le> length inner" by (rule length_dropWhile_le)
  ultimately show ?thesis by simp
qed


lemma subscript_key: "t \<in> set (map fst m) \<Longrightarrow> \<exists>r. subscript m t = Inr r"
proof -
  assume "t \<in> set (map fst m)"
  then have "map_of m t \<noteq> None" by (simp add: map_of_eq_None_iff)
  then show ?thesis by (auto simp: subscript_def)
qed

lemma item1_after_of:
  "startswith t ''list of '' \<or> startswith t ''array of '' \<or> startswith t ''tuple of ''
   \<Longrightarrow> \<exists>x. item1 (split1 t '' of '') = Inr x"
  by (auto simp: startswith_def prefix_def item1_def split1_def)

lemma wrap_Inr: "r = Inr s \<Longrightarrow> wrap f r = Inr (f s)"
  by (simp add: wrap_def)

lemma is_digit_lower_all: "list_all (\<lambda>c. is_digit (lower_char c) = is_digit c) Enum.enum"
  by code_simp

lemma is_digit_lower: "is_digit (lower_char c) = is_digit c"
  using is_digit_lower_all unfolding list_all_iff by (simp add: enum_UNIV)

lemma digit_count_lower: "digit_count (lower s) = digit_count s"
  by (induction s) (simp_all add: digit_count_def lower_def is_digit_lower)

lemma digit_count_append: "digit_count (a @ b) = digit_count a + digit_count b"
  by (simp add: digit_count_def)

lemma digit_count_rev: "digit_count (rev s) = digit_count s"
  by (simp add: digit_count_def flip: rev_filter)

lemma digit_count_dropWhile: "digit_count (dropWhile Q s) \<le> digit_count s"
proof -
  have "digit_count (takeWhile Q s @ dropWhile Q s) = digit_count s" by simp
  then show ?thesis unfolding digit_count_append by simp
qed

lemma digit_count_takeWhile: "digit_count (takeWhile Q s) \<le> digit_count s"
proof -
  have "digit_count (takeWhile Q s @ dropWhile Q s) = digit_count s" by simp
  then show ?thesis unfolding digit_count_append by simp
qed

lemma digit_count_strip: "digit_count (strip s) \<le> digit_count s"
proof -
  have "digit_count (strip s) = digit_count (dropWhile is_space (rev (dropWhile is_space s)))"
    by (simp add: strip_def digit_count_rev)
  also have "\<dots> \<le> digit_count (rev (dropWhile is_space s))" by (rule digit_count_dropWhile)
  also have "\<dots> \<le> digit_count s" by (simp add: digit_count_rev digit_count_dropWhile)
  finally show ?thesis .
qed

lemma digit_count_norm: "digit_count (norm s) \<le> digit_count s"
  by (simp add: norm_def digit_count_lower digit_count_strip)

lemma digit_count_split_first:
  "split_first sep s = Some (a, b) \<Longrightarrow> digit_count a \<le> digit_count s \<and> digit_count b \<le> digit_count s"
proof -
  assume "split_first sep s = Some (a, b)"
  then have "s = a @ sep @ b" by (rule split_first_decomp)
  then show ?thesis by (simp add: digit_count_append)
qed

lemma digit_count_split1: "contains t sep \<Longrightarrow> digit_count (split1 t sep ! 0) \<le> digit_count t"
proof -
  assume "contains t sep"
  then obtain a b where ab: "split_first sep t = Some (a, b)" by (auto simp: contains_def)
  with digit_count_split_first [OF ab] show ?thesis by (simp add: split1_def)
qed

lemma digit_count_item1: "item1 (split1 t sep) = Inr x \<Longrightarrow> digit_count x \<le> digit_count t"
proof -
  assume "item1 (split1 t sep) = Inr x"
  then obtain a where ab: "split_first sep t = Some (a, x)"
    by (auto simp: item1_def split1_def split: option.splits)
  with digit_count_split_first [OF ab] show ?thesis by simp
qed

lemma digit_count_run: "length (takeWhile is_digit s) \<le> digit_count s"
proof -
  have "filter is_digit (takeWhile is_digit s) = takeWhile is_digit s"
    by (simp add: filter_id_conv) (auto dest: set_takeWhileD)
  then have "length (takeWhile is_digit s) = digit_count (takeWhile is_digit s)"
    by (simp add: digit_count_def)
  with digit_count_takeWhile [of is_digit s] show ?thesis by simp
qed

lemma match_tuple_parts:
  assumes "match_tuple inner = Some (digits, base)"
  shows "list_all is_digit digits" and "length digits \<le> digit_count inner"
    and "base \<noteq> []" and "list_all is_tuple_base_char base"
proof -
  from assms have d: "digits = takeWhile is_digit inner"
    and b: "base = takeWhile is_tuple_base_char (dropWhile is_space (dropWhile is_digit inner))"
    and ne: "base \<noteq> []"
    by (auto simp: match_tuple_def Let_def split: if_splits)
  show "list_all is_digit digits" unfolding d list_all_iff by (auto dest: set_takeWhileD)
  show "length digits \<le> digit_count inner" unfolding d by (rule digit_count_run)
  show "base \<noteq> []" by (rule ne)
  show "list_all is_tuple_base_char base" unfolding b list_all_iff by (auto dest: set_takeWhileD)
qed

lemma digit_value: "is_digit c \<Longrightarrow> 0 \<le> (of_char c :: int) - 48 \<and> (of_char c :: int) - 48 \<le> 9"
proof -
  have "list_all (\<lambda>c. is_digit c \<longrightarrow> 0 \<le> (of_char c :: int) - 48 \<and> (of_char c :: int) - 48 \<le> 9) Enum.enum"
    by code_simp
  then show "is_digit c \<Longrightarrow> 0 \<le> (of_char c :: int) - 48 \<and> (of_char c :: int) - 48 \<le> 9"
    unfolding list_all_iff by (simp add: enum_UNIV)
qed

lemma foldl_digits:
  fixes acc :: int
  shows "list_all is_digit ds \<Longrightarrow> 0 \<le> acc \<Longrightarrow>
   0 \<le> foldl (\<lambda>n c. 10 * n + (of_char c - 48)) acc ds
   \<and> foldl (\<lambda>n c. 10 * n + (of_char c - 48)) acc ds < (acc + 1) * 10 ^ length ds"
proof (induction ds arbitrary: acc)
  case Nil
  then show ?case by simp
next
  case (Cons c ds)
  from Cons.prems have c: "0 \<le> (of_char c :: int) - 48" "(of_char c :: int) - 48 \<le> 9"
    using digit_value [of c] by simp_all
  define a where "a = 10 * acc + (of_char c - 48)"
  define F where "F = foldl (\<lambda>n c. 10 * n + (of_char c - 48)) a ds"
  from c Cons.prems have a: "0 \<le> a" by (simp add: a_def)
  from Cons.prems have "list_all is_digit ds" by simp
  from Cons.IH [OF this a] have lo: "0 \<le> F" and hi: "F < (a + 1) * 10 ^ length ds"
    by (simp_all add: F_def)
  from c have "a + 1 \<le> (acc + 1) * 10" by (simp add: a_def)
  then have "(a + 1) * 10 ^ length ds \<le> ((acc + 1) * 10) * 10 ^ length ds"
    by (intro mult_right_mono) simp_all
  with hi have "F < ((acc + 1) * 10) * 10 ^ length ds" by (rule less_le_trans)
  also have "\<dots> = (acc + 1) * 10 ^ length (c # ds)" by simp
  finally have "F < (acc + 1) * 10 ^ length (c # ds)" .
  moreover have "foldl (\<lambda>n c. 10 * n + (of_char c - 48)) acc (c # ds) = F"
    by (simp add: F_def a_def)
  ultimately show ?case using lo by simp
qed

lemma int_of_digits_bound:
  "list_all is_digit ds \<Longrightarrow> 0 \<le> int_of_digits ds \<and> int_of_digits ds < 10 ^ length ds"
  using foldl_digits [of ds 0] by (simp add: int_of_digits_def)

lemma length_join_replicate:
  "length (join sep (replicate n s)) \<le> n * (length s + length sep)"
proof (induction n)
  case 0
  show ?case by simp
next
  case (Suc n)
  show ?case
  proof (cases n)
    case 0
    then show ?thesis by simp
  next
    case (Suc m)
    then have "replicate n s \<noteq> []" by simp
    then have "join sep (replicate (Suc n) s) = s @ sep @ join sep (replicate n s)"
      by (simp add: join_Cons)
    with Suc.IH show ?thesis by simp
  qed
qed

lemma map_type_norm: "norm a = norm b \<Longrightarrow> map_type lim style a = map_type lim style b"
  by (simp add: map_type.simps [of lim style a] map_type.simps [of lim style b])

lemma map_type_strip: "map_type lim style (strip s) = map_type lim style s"
  by (rule map_type_norm) (rule norm_strip)

lemma map_type_no_room: "frames lim = 0 \<Longrightarrow> map_type lim style label = Inl RecursionError"
  by (simp add: map_type.simps [of lim style label])

lemma map_type_direct:
  assumes "direct style (norm label)" and "frames lim \<noteq> 0" and "frames lim' \<noteq> 0"
  shows "map_type lim style label = map_type lim' style label"
  using assms
  by (auto simp add: map_type.simps [of lim style label] map_type.simps [of lim' style label] direct_def Let_def)

lemma get_label_value:
  "key \<in> set (map fst m) \<Longrightarrow> \<exists>r. get_label m key = Inr r \<and> r \<in> set (map snd m)"
proof -
  assume "key \<in> set (map fst m)"
  then obtain v where v: "map_of m key = Some v" by (cases "map_of m key") (auto simp: map_of_eq_None_iff)
  then have "(key, v) \<in> set m" by (rule map_of_SomeD)
  then have "v \<in> set (map snd m)" by force
  with v show ?thesis by (simp add: get_label_def)
qed

lemma subscript_value:
  "key \<in> set (map fst m) \<Longrightarrow> \<exists>r. subscript m key = Inr r \<and> r \<in> set (map snd m)"
proof -
  assume "key \<in> set (map fst m)"
  then obtain v where v: "map_of m key = Some v" by (cases "map_of m key") (auto simp: map_of_eq_None_iff)
  then have "(key, v) \<in> set m" by (rule map_of_SomeD)
  then have "v \<in> set (map snd m)" by force
  with v show ?thesis by (simp add: subscript_def)
qed

lemma noun_keys:
  "''point'' \<in> set (map fst (base_map style))" "''vector'' \<in> set (map fst (base_map style))"
  "''color'' \<in> set (map fst (base_map style))" "''interval'' \<in> set (map fst (base_map style))"
  "''plane'' \<in> set (map fst (base_map style))" "''transform'' \<in> set (map fst (base_map style))"
  by (simp_all add: base_map_def dn_map_def py_map_def)

lemma map_type_direct_range:
  assumes "direct style (norm label)" and "frames lim \<noteq> 0"
  shows "\<exists>r. map_type lim style label = Inr r \<and> r \<in> set (finals style)"
proof -
  define t where "t = norm label"
  define m where "m = base_map style"
  from assms(1) have d: "\<not> contains t '' or ''" "\<not> startswith t ''list of ''"
    "\<not> startswith t ''array of ''" "\<not> startswith t ''tuple of ''"
    "t \<in> set (map fst m) \<or> \<not> contains t '',''"
    by (simp_all add: direct_def t_def m_def)
  have f: "set (map snd m) \<subseteq> set (finals style)" by (auto simp: finals_def m_def)
  have nouns: "\<exists>r. get_label m noun = Inr r \<and> r \<in> set (finals style)"
    if "noun \<in> set (map fst m)" for noun
    using get_label_value [OF that] f by blast
  note n = nouns [OF noun_keys(1) [of style, folded m_def]] nouns [OF noun_keys(2) [of style, folded m_def]]
    nouns [OF noun_keys(3) [of style, folded m_def]] nouns [OF noun_keys(4) [of style, folded m_def]]
    nouns [OF noun_keys(5) [of style, folded m_def]] nouns [OF noun_keys(6) [of style, folded m_def]]
  show ?thesis
  proof (cases "t \<in> set (map fst m)")
    case True
    then obtain r where "subscript m t = Inr r" and "r \<in> set (finals style)"
      using subscript_value [of t m] f by blast
    with True d assms(2) show ?thesis
      by (simp add: map_type.simps [of lim style label] t_def [symmetric] m_def [symmetric] Let_def finals_def)
  next
    case False
    with d have nc: "\<not> contains t '',''" by simp
    have fin: "''Any'' \<in> set (finals style)"
      "''List['' @ (case map_of m ''guid'' of Some g \<Rightarrow> g | None \<Rightarrow> ''str'') @ '']'' \<in> set (finals style)"
      by (simp_all add: finals_def m_def)
    from False nc d assms(2) n fin show ?thesis
      by (auto simp add: map_type.simps [of lim style label] t_def [symmetric] m_def [symmetric] Let_def)
  qed
qed

lemma finals_short: "list_all (\<lambda>r. r \<noteq> [] \<and> length r \<le> 26) (finals style)"
  by (simp add: finals_def base_map_def dn_map_def py_map_def)

lemma word_char_lower:
  "list_all (\<lambda>c. is_tuple_base_char c \<longrightarrow> lower_char c \<noteq> CHR '' '' \<and> lower_char c \<noteq> CHR '','') Enum.enum"
  by code_simp

lemma word_direct:
  assumes "list_all is_tuple_base_char base"
  shows "direct style (norm base)"
proof -
  have sub: "set (norm base) \<subseteq> lower_char ` set base"
    using set_strip [of base] by (auto simp: norm_def lower_def)
  have low: "lower_char c \<noteq> CHR '' '' \<and> lower_char c \<noteq> CHR '',''" if "c \<in> set base" for c
    using that assms word_char_lower unfolding list_all_iff by (simp add: enum_UNIV)
  have "d \<noteq> CHR '' '' \<and> d \<noteq> CHR '',''" if "d \<in> set (norm base)" for d
  proof -
    from that sub obtain c where "c \<in> set base" and "d = lower_char c" by blast
    with low [of c] show ?thesis by simp
  qed
  then have sp: "CHR '' '' \<notin> set (norm base)" and co: "CHR '','' \<notin> set (norm base)" by blast+
  have "\<not> contains (norm base) '' or ''" using contains_set [of "norm base" "'' or ''"] sp by auto
  moreover have "\<not> startswith (norm base) p" if "CHR '' '' \<in> set p" for p
    using set_mono_prefix [of p "norm base"] sp that by (auto simp: startswith_def)
  moreover have "\<not> contains (norm base) '',''" using co by (simp add: contains_char)
  ultimately show ?thesis by (simp add: direct_def)
qed

lemma word_label:
  assumes "list_all is_tuple_base_char base" and "frames lim \<noteq> 0"
  shows "\<exists>r. map_type lim style base = Inr r \<and> length r \<le> 26"
proof -
  from assms(1) have "direct style (norm base)" by (rule word_direct)
  then obtain r where "map_type lim style base = Inr r" and "r \<in> set (finals style)"
    using map_type_direct_range assms(2) by blast
  with finals_short [of style] show ?thesis unfolding list_all_iff by blast
qed

lemma alloc_room: "m \<le> maxsize lim \<Longrightarrow> m \<le> memory lim \<Longrightarrow> alloc lim m = None"
  by (simp add: alloc_def)

lemma tuple_of_room:
  assumes "0 \<le> n" and "n < 10 ^ k" and "length r \<le> 26" and "count_room lim k"
  shows "tuple_of lim r n = Inr (''Tuple['' @ join '', '' (replicate (nat n) r) @ '']'')"
proof -
  define items where "items = replicate (nat n) r"
  have "length (join '', '' items) \<le> nat n * (length r + length '', '')"
    unfolding items_def by (rule length_join_replicate)
  also have "\<dots> \<le> nat n * 28" using assms(3) by simp
  finally have "length (join '', '' items) \<le> nat n * 28" .
  then have "int (length (join '', '' items)) \<le> int (nat n * 28)" by (simp only: of_nat_le_iff)
  also have "int (nat n * 28) = 28 * n" using assms(1) by simp
  finally have L: "int (length (join '', '' items)) \<le> 28 * n" .
  from assms(2) have "28 * n + 28 \<le> 28 * 10 ^ k" by simp
  with L have b: "int (length (join '', '' items)) + 7 \<le> 28 * 10 ^ k" by simp
  from assms(4) have m: "28 * 10 ^ k \<le> maxsize lim" "28 * 10 ^ k \<le> memory lim"
    by (simp_all add: count_room_def)
  have a0: "alloc lim n = None" using assms(1,2) m by (intro alloc_room) simp_all
  have a1: "alloc lim (int (length (join '', '' items))) = None" using b m by (intro alloc_room) simp_all
  have a2: "alloc lim (int (length (''Tuple['' @ join '', '' items))) = None"
    using b m by (intro alloc_room) simp_all
  have a3: "alloc lim (int (length (''Tuple['' @ join '', '' items @ '']''))) = None"
    using b m by (intro alloc_room) simp_all
  show ?thesis
    unfolding tuple_of_def Let_def items_def [symmetric] a0 a1 a2 a3 by simp
qed

lemma py_int_room:
  assumes "length digits \<le> k" and "count_room lim k"
  shows "py_int lim digits = Inr (int_of_digits digits)"
  using assms by (auto simp: py_int_def count_room_def)

lemma map_type_returns:
  "length label < frames lim \<Longrightarrow> digit_count label \<le> k \<Longrightarrow> count_room lim k
   \<Longrightarrow> \<exists>r. map_type lim style label = Inr r"
proof (induction lim style label rule: map_type.induct)
  case (1 lim style label)
  from "1.prems"(1) have room: "frames lim \<noteq> 0" by simp
  define inside where "inside = lim\<lparr>frames := frames lim - 1\<rparr>"
  define t where "t = norm label"
  note IH = "1.IH" [OF room inside_def t_def]
  have ins: "lim\<lparr>frames := frames lim - Suc 0\<rparr> = inside" by (simp add: inside_def)
  have cr: "count_room inside k" using "1.prems"(3) by (simp add: inside_def count_room_def)
  have lt: "length t \<le> length label" unfolding t_def by (rule length_norm)
  have dt: "digit_count t \<le> k" using digit_count_norm [of label] "1.prems"(2) by (simp add: t_def)
  have fits: "length a < frames inside" if "length a < length t" for a
    using that lt "1.prems"(1) by (simp add: inside_def)
  show ?case
  proof (cases "t = []")
    case True
    with room show ?thesis by (simp add: map_type.simps [of lim style label] t_def [symmetric])
  next
    case ne: False
    show ?thesis
    proof (cases "contains t '' or ''")
      case True
      show ?thesis
      proof (cases "first_mapped (base_map style) (alternatives t)")
        case None
        have "length (split1 t '' or '' ! 0) < length t"
          using split1_first_shorter [OF True] by simp
        then have "length (split1 t '' or '' ! 0) < frames inside" by (rule fits)
        moreover have "digit_count (split1 t '' or '' ! 0) \<le> k"
          using digit_count_split1 [OF True] dt by simp
        ultimately obtain r where "map_type inside style (split1 t '' or '' ! 0) = Inr r"
          using IH(1) [OF ne True None] cr by blast
        with room ne True None show ?thesis
          by (simp add: map_type.simps [of lim style label] t_def [symmetric] ins)
      next
        case (Some mt)
        with room ne True show ?thesis
          by (simp add: map_type.simps [of lim style label] t_def [symmetric])
      qed
    next
      case no_or: False
      show ?thesis
      proof (cases "startswith t ''list of '' \<or> startswith t ''array of ''")
        case True
        then obtain x where x: "item1 (split1 t '' of '') = Inr x" using item1_after_of [of t] by blast
        have "length x < length t" using item1_split1_shorter [OF x] by simp
        then have "length (strip x) < length t" using length_strip [of x] by simp
        then have "length (strip x) < frames inside" by (rule fits)
        moreover have "digit_count (strip x) \<le> k"
          using digit_count_strip [of x] digit_count_item1 [OF x] dt by simp
        ultimately obtain r where "map_type inside style (strip x) = Inr r"
          using IH(2) [OF ne no_or True x] cr by blast
        with room ne no_or True x show ?thesis
          by (simp add: map_type.simps [of lim style label] t_def [symmetric] ins wrap_def)
      next
        case no_list: False
        show ?thesis
        proof (cases "startswith t ''tuple of ''")
          case True
          then obtain x where x: "item1 (split1 t '' of '') = Inr x" using item1_after_of [of t] by blast
          show ?thesis
          proof (cases "match_tuple (strip x)")
            case None
            with room ne no_or no_list True x show ?thesis
              by (simp add: map_type.simps [of lim style label] t_def [symmetric])
          next
            case (Some db)
            obtain digits base where db: "db = (digits, base)" by (cases db)
            note parts = match_tuple_parts [OF Some [unfolded db]]
            have "length digits \<le> digit_count (strip x)" by (rule parts(2))
            also have "\<dots> \<le> k" using digit_count_strip [of x] digit_count_item1 [OF x] dt by simp
            finally have dk: "length digits \<le> k" .
            then have n: "py_int lim digits = Inr (int_of_digits digits)"
              using "1.prems"(3) by (rule py_int_room)
            have n1: "int_of_digits digits < 10 ^ length digits" and n0: "0 \<le> int_of_digits digits"
              using int_of_digits_bound [OF parts(1)] by simp_all
            have "(10::int) ^ length digits \<le> 10 ^ k" using dk by (intro power_increasing) simp_all
            with n1 have nk: "int_of_digits digits < 10 ^ k" by (rule less_le_trans)
            from ne lt "1.prems"(1) have "frames inside \<noteq> 0" by (cases t) (simp_all add: inside_def)
            with parts(4) obtain r where r: "map_type inside style base = Inr r" "length r \<le> 26"
              using word_label by blast
            have "tuple_of lim r (int_of_digits digits)
                = Inr (''Tuple['' @ join '', '' (replicate (nat (int_of_digits digits)) r) @ '']'')"
              using n0 nk r(2) "1.prems"(3) by (rule tuple_of_room)
            with room ne no_or no_list True x Some db n r(1) show ?thesis
              by (simp add: map_type.simps [of lim style label] t_def [symmetric] ins)
          qed
        next
          case no_tuple: False
          show ?thesis
          proof (cases "t \<in> set (map fst (base_map style))")
            case True
            then obtain r where "subscript (base_map style) t = Inr r" using subscript_key by blast
            with room ne no_or no_list no_tuple True show ?thesis
              by (simp add: map_type.simps [of lim style label] t_def [symmetric])
          next
            case no_key: False
            show ?thesis
            proof (cases "contains t '',''")
              case True
              have "length (split1 t '','' ! 0) < length t"
                using split1_first_shorter [OF True] by simp
              then have "length (strip (split1 t '','' ! 0)) < length t"
                using length_strip [of "split1 t '','' ! 0"] by simp
              then have "length (strip (split1 t '','' ! 0)) < frames inside" by (rule fits)
              moreover have "digit_count (strip (split1 t '','' ! 0)) \<le> k"
                using digit_count_strip [of "split1 t '','' ! 0"] digit_count_split1 [OF True] dt by simp
              ultimately obtain r where "map_type inside style (strip (split1 t '','' ! 0)) = Inr r"
                using IH(4) [OF ne no_or no_list no_tuple no_key True] cr by blast
              with room ne no_or no_list no_tuple no_key True show ?thesis
                by (simp add: map_type.simps [of lim style label] t_def [symmetric] ins)
            next
              case False
              with no_or no_list no_tuple have "direct style (norm label)"
                by (simp add: direct_def t_def)
              then show ?thesis using map_type_direct_range room by blast
            qed
          qed
        qed
      qed
    qed
  qed
qed

subsection \<open>The free-text type mapper\<close>

lemma first_mapped_first:
  "\<forall>q \<in> set ps. map_of m q = None \<Longrightarrow> map_of m p = Some mt \<Longrightarrow> mt \<noteq> []
   \<Longrightarrow> first_mapped m (ps @ p # qs) = Some mt"
  by (induction ps) simp_all

lemma first_mapped_none: "\<forall>q \<in> set ps. map_of m q = None \<Longrightarrow> first_mapped m ps = None"
  by (induction ps) simp_all

lemma base_map_value_nonempty: "map_of (base_map style) p = Some mt \<Longrightarrow> mt \<noteq> []"
proof -
  assume "map_of (base_map style) p = Some mt"
  then have "(p, mt) \<in> set (base_map style)" by (rule map_of_SomeD)
  moreover have "\<forall>kv \<in> set dn_map. snd kv \<noteq> []" by (simp add: dn_map_def)
  moreover have "\<forall>kv \<in> set py_map. snd kv \<noteq> []" by (simp add: py_map_def)
  ultimately show ?thesis by (auto simp: base_map_def split: if_splits)
qed

lemma map_type_union:
  assumes "frames lim \<noteq> 0" and "contains (norm label) '' or ''"
    and "alternatives (norm label) = ps @ p # qs"
    and "\<forall>q \<in> set ps. map_of (base_map style) q = None"
    and "map_of (base_map style) p = Some mt"
  shows "map_type lim style label = Inr mt"
proof -
  from assms(2) have ne: "norm label \<noteq> []" by (auto simp: contains_def)
  from assms(5) have "mt \<noteq> []" by (rule base_map_value_nonempty)
  with assms(4,5) have "first_mapped (base_map style) (ps @ p # qs) = Some mt"
    by (rule first_mapped_first)
  with assms(1,2,3) ne show ?thesis by (simp add: map_type.simps [of lim style label])
qed

lemma map_type_union_first:
  assumes "frames lim \<noteq> 0" and "contains (norm label) '' or ''"
    and "\<forall>q \<in> set (alternatives (norm label)). map_of (base_map style) q = None"
  shows "map_type lim style label
    = map_type (lim\<lparr>frames := frames lim - 1\<rparr>) style (split1 (norm label) '' or '' ! 0)"
proof -
  from assms(2) have ne: "norm label \<noteq> []" by (auto simp: contains_def)
  from assms(3) have "first_mapped (base_map style) (alternatives (norm label)) = None"
    by (rule first_mapped_none)
  with assms(1,2) ne show ?thesis by (simp add: map_type.simps [of lim style label])
qed

lemma item1_list_of: "item1 (split1 (''list of '' @ x) '' of '') = Inr x"
  by (simp add: item1_def split1_def)

lemma map_type_list_of:
  assumes "frames lim \<noteq> 0" and "norm label = ''list of '' @ x" and "\<not> contains (norm label) '' or ''"
  shows "map_type lim style label
    = wrap (\<lambda>s. ''List['' @ s @ '']'') (map_type (lim\<lparr>frames := frames lim - 1\<rparr>) style x)"
proof -
  from assms(2) have ne: "norm label \<noteq> []" by simp
  from assms(2) have sw: "startswith (norm label) ''list of ''" by (simp add: startswith_def)
  have it: "item1 (split1 (norm label) '' of '') = Inr x" unfolding assms(2) by (rule item1_list_of)
  from assms(1) ne sw it assms(3) show ?thesis
    by (simp add: map_type.simps [of lim style label] map_type_strip)
qed

lemma map_type_unrecognized:
  assumes "frames lim \<noteq> 0" and "norm label = [] \<or> unrecognized style (norm label)"
  shows "map_type lim style label = Inr ''Any''"
proof (cases "norm label = []")
  case True
  with assms(1) show ?thesis by (simp add: map_type.simps [of lim style label])
next
  case False
  define t where "t = norm label"
  from False assms(2) have "unrecognized style t" by (simp add: t_def)
  then have u: "\<not> contains t '' or ''" "\<not> startswith t ''list of ''" "\<not> startswith t ''array of ''"
    "\<not> startswith t ''tuple of ''" "t \<notin> set (map fst (base_map style))" "\<not> contains t '',''"
    "\<not> (startswith t ''['' \<and> contains t ''...'' \<and> (contains t ''guid'' \<or> contains t ''uuid''))"
    "\<not> contains t ''point''" "\<not> contains t ''vector''" "\<not> contains t ''color''"
    "\<not> contains t ''interval''" "\<not> contains t ''plane''" "\<not> contains t ''transform''"
    "\<not> contains t ''matrix''"
    by (simp_all add: unrecognized_def domain_nouns_def)
  from assms(1) False show ?thesis
    unfolding map_type.simps [of lim style label] Let_def t_def [symmetric]
    using u by (simp del: set_map)
qed

lemma map_type_point:
  assumes "frames lim \<noteq> 0"
  shows "map_type lim style ''point''
    = Inr (if style = ''dotnet'' then ''Rhino.Geometry.Point3d'' else ''Tuple[float, float, float]'')"
proof -
  have n: "norm ''point'' = ''point''" by code_simp
  have c: "\<not> contains ''point'' '' or ''" by code_simp
  have s: "\<not> startswith ''point'' ''list of ''" "\<not> startswith ''point'' ''array of ''"
    "\<not> startswith ''point'' ''tuple of ''" by code_simp+
  from assms show ?thesis
    by (simp add: map_type.simps [of lim style "''point''"] n c s)
      (simp add: base_map_def dn_map_def py_map_def subscript_def)
qed

text \<open>
  Claim C9, as the code has it. A union label goes to the table value of the first of
  its alternatives (the parts between \<open>or\<close>, trimmed, the empty ones left out) that is
  a key of the table, and when none is a key, to the label of the text before the first
  \<open>or\<close>. The union rule is tried first: a label \<open>list of X\<close> goes to \<open>List[...]\<close>
  around the label of \<open>X\<close> when it is no union, so \<open>list of point\<close> goes to
  \<open>List[...]\<close> around the table's label of \<open>point\<close>. A label that no rule takes up
  goes to \<open>Any\<close>, as the empty label does. The mapper returns a label, and raises
  nothing, for every text that is shorter than the stack has room for calls and whose
  digits are so few, \<open>k\<close> at most, that the interpreter can convert every count of
  \<open>k\<close> digits and build the tuple label of that many items.
\<close>

theorem map_type_spec:
  "(length label < frames lim \<and> digit_count label \<le> k \<and> count_room lim k
      \<longrightarrow> (\<exists>r. map_type lim style label = Inr r))
   \<and> (frames lim \<noteq> 0 \<and> contains (norm label) '' or '' \<and> alternatives (norm label) = ps @ p # qs
        \<and> (\<forall>q \<in> set ps. map_of (base_map style) q = None) \<and> map_of (base_map style) p = Some mt
      \<longrightarrow> map_type lim style label = Inr mt)
   \<and> (frames lim \<noteq> 0 \<and> contains (norm label) '' or ''
        \<and> (\<forall>q \<in> set (alternatives (norm label)). map_of (base_map style) q = None)
      \<longrightarrow> map_type lim style label
          = map_type (lim\<lparr>frames := frames lim - 1\<rparr>) style (split1 (norm label) '' or '' ! 0))
   \<and> (frames lim \<noteq> 0 \<longrightarrow> map_type lim style ''number or guid'' = Inr ''float'')
   \<and> (frames lim \<noteq> 0 \<and> norm label = ''list of '' @ x \<and> \<not> contains (norm label) '' or ''
      \<longrightarrow> map_type lim style label
          = wrap (\<lambda>s. ''List['' @ s @ '']'') (map_type (lim\<lparr>frames := frames lim - 1\<rparr>) style x))
   \<and> (2 \<le> frames lim
      \<longrightarrow> (\<exists>point_label. map_of (base_map style) ''point'' = Some point_label
            \<and> map_type lim style ''list of point'' = Inr (''List['' @ point_label @ '']'')))
   \<and> (frames lim \<noteq> 0 \<and> (norm label = [] \<or> unrecognized style (norm label))
      \<longrightarrow> map_type lim style label = Inr ''Any'')
   \<and> (frames lim \<noteq> 0 \<longrightarrow> map_type lim style ''banana'' = Inr ''Any'')"
proof -
  have returns: "length label < frames lim \<and> digit_count label \<le> k \<and> count_room lim k
      \<longrightarrow> (\<exists>r. map_type lim style label = Inr r)"
    using map_type_returns [of label lim k style] by blast
  have union: "frames lim \<noteq> 0 \<and> contains (norm label) '' or '' \<and> alternatives (norm label) = ps @ p # qs
        \<and> (\<forall>q \<in> set ps. map_of (base_map style) q = None) \<and> map_of (base_map style) p = Some mt
      \<longrightarrow> map_type lim style label = Inr mt"
    using map_type_union [of lim label ps p qs style mt] by blast
  have union_first: "frames lim \<noteq> 0 \<and> contains (norm label) '' or ''
        \<and> (\<forall>q \<in> set (alternatives (norm label)). map_of (base_map style) q = None)
      \<longrightarrow> map_type lim style label
          = map_type (lim\<lparr>frames := frames lim - 1\<rparr>) style (split1 (norm label) '' or '' ! 0)"
    using map_type_union_first [of lim label style] by blast
  have number_or_guid: "frames lim \<noteq> 0 \<longrightarrow> map_type lim style ''number or guid'' = Inr ''float''"
  proof
    assume room: "frames lim \<noteq> 0"
    have "contains (norm ''number or guid'') '' or ''" by code_simp
    moreover have "alternatives (norm ''number or guid'') = [] @ ''number'' # [''guid'']" by code_simp
    moreover have "map_of (base_map style) ''number'' = Some ''float''"
      by (simp add: base_map_def dn_map_def py_map_def)
    ultimately show "map_type lim style ''number or guid'' = Inr ''float''"
      using room map_type_union [of lim "''number or guid''" "[]" "''number''" "[''guid'']" style "''float''"]
      by simp
  qed
  have list_of: "frames lim \<noteq> 0 \<and> norm label = ''list of '' @ x \<and> \<not> contains (norm label) '' or ''
      \<longrightarrow> map_type lim style label
          = wrap (\<lambda>s. ''List['' @ s @ '']'') (map_type (lim\<lparr>frames := frames lim - 1\<rparr>) style x)"
    using map_type_list_of [of lim label x style] by blast
  have list_of_point: "2 \<le> frames lim
      \<longrightarrow> (\<exists>point_label. map_of (base_map style) ''point'' = Some point_label
            \<and> map_type lim style ''list of point'' = Inr (''List['' @ point_label @ '']''))"
  proof
    assume room: "2 \<le> frames lim"
    define inside where "inside = lim\<lparr>frames := frames lim - 1\<rparr>"
    from room have r1: "frames lim \<noteq> 0" and r2: "frames inside \<noteq> 0" by (simp_all add: inside_def)
    have "norm ''list of point'' = ''list of '' @ ''point''" by code_simp
    moreover have "\<not> contains (norm ''list of point'') '' or ''" by code_simp
    ultimately have "map_type lim style ''list of point''
        = wrap (\<lambda>s. ''List['' @ s @ '']'') (map_type inside style ''point'')"
      unfolding inside_def using r1 by (intro map_type_list_of) simp_all
    then show "\<exists>point_label. map_of (base_map style) ''point'' = Some point_label
        \<and> map_type lim style ''list of point'' = Inr (''List['' @ point_label @ '']'')"
      unfolding map_type_point [OF r2] by (simp add: wrap_def base_map_def dn_map_def py_map_def)
  qed
  have unknown: "frames lim \<noteq> 0 \<and> (norm label = [] \<or> unrecognized style (norm label))
      \<longrightarrow> map_type lim style label = Inr ''Any''"
    using map_type_unrecognized [of lim label style] by blast
  have banana: "frames lim \<noteq> 0 \<longrightarrow> map_type lim style ''banana'' = Inr ''Any''"
  proof
    assume room: "frames lim \<noteq> 0"
    have n: "norm ''banana'' = ''banana''" by code_simp
    have "unrecognized style ''banana''"
      unfolding unrecognized_def domain_nouns_def
      by (simp add: base_map_def dn_map_def py_map_def) code_simp
    with n room show "map_type lim style ''banana'' = Inr ''Any''"
      using map_type_unrecognized [of lim "''banana''" style] by simp
  qed
  from returns union union_first number_or_guid list_of list_of_point unknown banana
  show ?thesis by blast
qed

theorem map_type_spec_witness:
  "length ''Tuple of 12 Numbers'' < frames cpython
   \<and> digit_count ''Tuple of 12 Numbers'' \<le> 2
   \<and> count_room cpython 2
   \<and> (\<exists>r. map_type cpython ''dotnet'' ''Tuple of 12 Numbers'' = Inr r)
   \<and> frames cpython \<noteq> 0
   \<and> contains (norm ''Curve or GUID'') '' or ''
   \<and> alternatives (norm ''Curve or GUID'') = [''curve''] @ ''guid'' # []
   \<and> map_of (base_map ''dotnet'') ''curve'' = None
   \<and> map_of (base_map ''dotnet'') ''guid'' = Some ''System.Guid''
   \<and> map_type cpython ''dotnet'' ''Curve or GUID'' = Inr ''System.Guid''
   \<and> alternatives (norm ''Mesh, optional or Brep'') = [''mesh, optional'', ''brep'']
   \<and> map_of (base_map ''dotnet'') ''mesh, optional'' = None
   \<and> map_of (base_map ''dotnet'') ''brep'' = None
   \<and> map_type cpython ''dotnet'' ''Mesh, optional or Brep'' = Inr ''Any''
   \<and> norm ''List of Number'' = ''list of '' @ ''number''
   \<and> \<not> contains (norm ''List of Number'') '' or ''
   \<and> map_type cpython ''dotnet'' ''List of Number'' = Inr ''List[float]''
   \<and> 2 \<le> frames cpython
   \<and> map_type cpython ''dotnet'' ''list of point'' = Inr ''List[Rhino.Geometry.Point3d]''
   \<and> unrecognized ''dotnet'' (norm ''Mesh'')
   \<and> map_type cpython ''dotnet'' ''Mesh'' = Inr ''Any''"
proof -
  let ?in = "cpython\<lparr>frames := frames cpython - 1\<rparr>"
  have r: "frames cpython \<noteq> 0" "2 \<le> frames cpython" by (simp_all add: cpython_def)
  have t1: "length ''Tuple of 12 Numbers'' < frames cpython" by (simp add: cpython_def)
  have t2: "digit_count ''Tuple of 12 Numbers'' \<le> 2" by code_simp
  have t3: "count_room cpython 2" by (simp add: count_room_def cpython_def)
  have a: "contains (norm ''Curve or GUID'') '' or ''" by code_simp
  have b: "alternatives (norm ''Curve or GUID'') = [''curve''] @ ''guid'' # []" by code_simp
  have c: "map_of (base_map ''dotnet'') ''curve'' = None" by code_simp
  have d: "map_of (base_map ''dotnet'') ''guid'' = Some ''System.Guid''" by code_simp
  have u1: "contains (norm ''Mesh, optional or Brep'') '' or ''" by code_simp
  have u2: "alternatives (norm ''Mesh, optional or Brep'') = [''mesh, optional'', ''brep'']" by code_simp
  have u3: "map_of (base_map ''dotnet'') ''mesh, optional'' = None" by code_simp
  have u4: "map_of (base_map ''dotnet'') ''brep'' = None" by code_simp
  have u5: "map_type ?in ''dotnet'' (split1 (norm ''Mesh, optional or Brep'') '' or '' ! 0) = Inr ''Any''"
    by code_simp
  have e: "norm ''List of Number'' = ''list of '' @ ''number''" by code_simp
  have f: "\<not> contains (norm ''List of Number'') '' or ''" by code_simp
  have g: "wrap (\<lambda>s. ''List['' @ s @ '']'') (map_type ?in ''dotnet'' ''number'') = Inr ''List[float]''"
    by code_simp
  have h: "unrecognized ''dotnet'' (norm ''Mesh'')" by code_simp
  from t1 t2 t3 map_type_spec [of "''Tuple of 12 Numbers''" cpython 2 "''dotnet''"]
  have t: "\<exists>r. map_type cpython ''dotnet'' ''Tuple of 12 Numbers'' = Inr r" by blast
  from r a b c d
    map_type_spec [of "''Curve or GUID''" cpython _ "''dotnet''" "[''curve'']" "''guid''" "[]" "''System.Guid''"]
  have u: "map_type cpython ''dotnet'' ''Curve or GUID'' = Inr ''System.Guid''" by simp
  from r u1 u2 u3 u4 map_type_spec [of "''Mesh, optional or Brep''" cpython _ "''dotnet''"]
  have "map_type cpython ''dotnet'' ''Mesh, optional or Brep''
      = map_type ?in ''dotnet'' (split1 (norm ''Mesh, optional or Brep'') '' or '' ! 0)"
    by simp
  with u5 have v: "map_type cpython ''dotnet'' ''Mesh, optional or Brep'' = Inr ''Any''" by simp
  from r e f map_type_spec [of "''List of Number''" cpython _ "''dotnet''" _ _ _ _ "''number''"]
  have "map_type cpython ''dotnet'' ''List of Number''
      = wrap (\<lambda>s. ''List['' @ s @ '']'') (map_type ?in ''dotnet'' ''number'')"
    by simp
  with g have l: "map_type cpython ''dotnet'' ''List of Number'' = Inr ''List[float]''" by simp
  from r map_type_spec [of _ cpython _ "''dotnet''"]
  have "\<exists>point_label. map_of (base_map ''dotnet'') ''point'' = Some point_label
      \<and> map_type cpython ''dotnet'' ''list of point'' = Inr (''List['' @ point_label @ '']'')"
    by blast
  then have p: "map_type cpython ''dotnet'' ''list of point'' = Inr ''List[Rhino.Geometry.Point3d]''"
    by (simp add: base_map_def dn_map_def)
  from r h map_type_spec [of "''Mesh''" cpython _ "''dotnet''"]
  have m: "map_type cpython ''dotnet'' ''Mesh'' = Inr ''Any''" by simp
  from r t1 t2 t3 t a b c d u u2 u3 u4 v e f l p h m show ?thesis by blast
qed

text \<open>
  The claim as the specification states it fails in two places. The union rule comes
  first, so \<open>list of point or guid\<close> is read as the union of \<open>list of point\<close> and
  \<open>guid\<close> and goes to the label of \<open>guid\<close>, not to \<open>List[...]\<close> around the label of
  \<open>point or guid\<close>. And the mapper raises: the count of \<open>tuple of N X\<close> is the size of
  a list that the code builds, and a count beyond \<open>sys.maxsize\<close> raises
  \<open>OverflowError\<close>.
\<close>

theorem map_type_spec_counterexample:
  "map_type cpython ''dotnet'' ''list of point or guid'' = Inr ''System.Guid''
   \<and> map_type cpython ''dotnet'' ''point or guid'' = Inr ''Rhino.Geometry.Point3d''
   \<and> map_type cpython ''dotnet'' ''tuple of 99999999999999999999 int'' = Inl OverflowError"
proof -
  have "map_type cpython ''dotnet'' ''list of point or guid'' = Inr ''System.Guid''" by code_simp
  moreover have "map_type cpython ''dotnet'' ''point or guid'' = Inr ''Rhino.Geometry.Point3d''"
    by code_simp
  moreover have "map_type cpython ''dotnet'' ''tuple of 99999999999999999999 int'' = Inl OverflowError"
    by code_simp
  ultimately show ?thesis by blast
qed

subsection \<open>The typed signature of the free-text pipeline\<close>

lemma typed_item_optional:
  assumes "param_types name = Some info" and "optional info"
    and "ptype info \<noteq> ''Any''" and "ptype info \<noteq> ''None''"
    and "\<not> startswith (ptype info) ''Optional[''"
  shows "typed_item param_types (name, None) = name @ '': Optional['' @ ptype info @ ''] = None''"
  using assms by (simp add: typed_item_def)

lemma typed_item_absent:
  assumes "param_types name = None"
  shows "typed_item param_types (name, dflt)
    = name @ '': Any'' @ (case dflt of None \<Rightarrow> '''' | Some d \<Rightarrow> '' = '' @ d)"
  using assms by (simp add: typed_item_def split: option.splits)

text \<open>
  Claim C10. A parameter of the invocation example that the parameters table marks
  optional, that has no default in the example and whose mapped type is not \<open>Any\<close>,
  not \<open>None\<close> and does not start with \<open>Optional[\<close>, is emitted as
  \<open>name: Optional[type] = None\<close>. A parameter that the table does not have is
  emitted as \<open>name: Any\<close>, with the default of the example when it has one, and never
  with an added \<open>= None\<close>. The entries stand in the line in the order of the example.
\<close>

theorem optional_parameter_wrapping:
  "(param_types name = Some info \<and> optional info
      \<and> ptype info \<noteq> ''Any'' \<and> ptype info \<noteq> ''None'' \<and> \<not> startswith (ptype info) ''Optional[''
    \<longrightarrow> build_typed_signature func_name (before @ (name, None) # after) param_types returns_type
        = ''rhinoscriptsyntax.'' @ func_name @ ''(''
          @ join '', '' (map (typed_item param_types) before
                         @ (name @ '': Optional['' @ ptype info @ ''] = None'')
                         # map (typed_item param_types) after)
          @ '') -> '' @ returns_type)
   \<and> (param_types name = None
    \<longrightarrow> build_typed_signature func_name (before @ (name, dflt) # after) param_types returns_type
        = ''rhinoscriptsyntax.'' @ func_name @ ''(''
          @ join '', '' (map (typed_item param_types) before
                         @ (name @ '': Any'' @ (case dflt of None \<Rightarrow> '''' | Some d \<Rightarrow> '' = '' @ d))
                         # map (typed_item param_types) after)
          @ '') -> '' @ returns_type)"
  using typed_item_optional [of param_types name info] typed_item_absent [of param_types name dflt]
  by (simp add: build_typed_signature_def)

theorem optional_parameter_wrapping_witness:
  "build_typed_signature ''AddLine'' ([(''start'', None)] @ (''count'', None) # [(''layer'', Some ''0'')])
      [''start'' \<mapsto> \<lparr>ptype = ''Rhino.Geometry.Point3d'', optional = False\<rparr>,
       ''count'' \<mapsto> \<lparr>ptype = ''int'', optional = True\<rparr>] ''System.Guid''
   = ''rhinoscriptsyntax.AddLine(start: Rhino.Geometry.Point3d, count: Optional[int] = None, layer: Any = 0) -> System.Guid''
   \<and> build_typed_signature ''F'' ([] @ (''x'', None) # []) Map.empty ''None'' = ''rhinoscriptsyntax.F(x: Any) -> None''"
proof -
  let ?pt = "[''start'' \<mapsto> \<lparr>ptype = ''Rhino.Geometry.Point3d'', optional = False\<rparr>,
       ''count'' \<mapsto> \<lparr>ptype = ''int'', optional = True\<rparr>]"
  have a: "?pt ''count'' = Some \<lparr>ptype = ''int'', optional = True\<rparr>" by simp
  have b: "\<not> startswith ''int'' ''Optional[''" by (simp add: startswith_def)
  have c: "map (typed_item ?pt) [(''start'', None)] = [''start: Rhino.Geometry.Point3d'']"
    by (simp add: typed_item_def startswith_def)
  have d: "map (typed_item ?pt) [(''layer'', Some ''0'')] = [''layer: Any = 0'']"
    by (simp add: typed_item_def)
  from a b optional_parameter_wrapping [of ?pt "''count''" "\<lparr>ptype = ''int'', optional = True\<rparr>"
      "''AddLine''" "[(''start'', None)]" "[(''layer'', Some ''0'')]" "''System.Guid''"]
  have "build_typed_signature ''AddLine'' ([(''start'', None)] @ (''count'', None) # [(''layer'', Some ''0'')])
      ?pt ''System.Guid''
   = ''rhinoscriptsyntax.'' @ ''AddLine'' @ ''(''
          @ join '', '' (map (typed_item ?pt) [(''start'', None)]
                         @ (''count'' @ '': Optional['' @ ''int'' @ ''] = None'')
                         # map (typed_item ?pt) [(''layer'', Some ''0'')])
          @ '') -> '' @ ''System.Guid''"
    by simp
  then have first: "build_typed_signature ''AddLine'' ([(''start'', None)] @ (''count'', None) # [(''layer'', Some ''0'')])
      ?pt ''System.Guid''
   = ''rhinoscriptsyntax.AddLine(start: Rhino.Geometry.Point3d, count: Optional[int] = None, layer: Any = 0) -> System.Guid''"
    unfolding c d by simp
  from optional_parameter_wrapping [of Map.empty "''x''" _ "''F''" "[]" "[]" "''None''" None]
  have second: "build_typed_signature ''F'' ([] @ (''x'', None) # []) Map.empty ''None'' = ''rhinoscriptsyntax.F(x: Any) -> None''"
    by simp
  from first second show ?thesis by blast
qed

subsection \<open>The type normalizer on the spellings built from its alias table\<close>

lemma word_not_special: "list_all (\<lambda>c. \<not> is_word c) (''<>(){}[]?,.'' @ [CHR 0x09, CHR 0x0A, CHR 0x0B, CHR 0x0C, CHR 0x0D,
       CHR 0x1C, CHR 0x1D, CHR 0x1E, CHR 0x1F, CHR 0x20, CHR 0x85, CHR 0xA0])"
  by code_simp

lemma word_not_space: "is_word c \<Longrightarrow> \<not> is_space c"
  using word_not_special by (auto simp: is_space_def)

lemma form_char_not_space: "form_char c \<Longrightarrow> \<not> is_space c"
proof -
  assume "form_char c"
  then consider "is_word c" | "c \<in> set ''.[]{}?,''" by (auto simp: form_char_def)
  then show ?thesis
  proof cases
    case 1 then show ?thesis by (rule word_not_space)
  next
    case 2 then show ?thesis by (auto simp: is_space_def)
  qed
qed

lemma form_char_not_newline: "form_char c \<Longrightarrow> c \<noteq> CHR 0x0A"
  using form_char_not_space [of c] by (auto simp: is_space_def)

lemma alias_key_chars: "list_all (\<lambda>k. k \<noteq> [] \<and> list_all is_word (filter (\<lambda>c. c \<noteq> CHR ''.'') k)) (map fst aliases)"
  by code_simp

lemma alias_key_plain: "k \<in> set (map fst aliases) \<Longrightarrow> k \<noteq> [] \<and> (\<forall>c \<in> set k. is_word c \<or> c = CHR ''.'')"
  using alias_key_chars by (auto simp: list_all_iff)

lemma set_join_subset:
  "\<forall>x \<in> set xs. \<forall>c \<in> set x. P c \<Longrightarrow> \<forall>c \<in> set sep. P c \<Longrightarrow> \<forall>c \<in> set (join sep xs). P c"
  using set_join [of sep xs] by blast

lemma join_nonempty: "xs \<noteq> [] \<Longrightarrow> \<forall>x \<in> set xs. x \<noteq> [] \<Longrightarrow> join sep xs \<noteq> []"
  by (induction sep xs rule: join.induct) auto

lemma literal_form_chars:
  "\<forall>c \<in> set ''Nullable{''. form_char c" "\<forall>c \<in> set ''System.Nullable{''. form_char c"
  "\<forall>c \<in> set ''[]''. form_char c" "\<forall>c \<in> set ''}''. form_char c"
  "\<forall>c \<in> set ''?''. form_char c" "\<forall>c \<in> set ''{''. form_char c" "\<forall>c \<in> set '',''. form_char c"
  unfolding list_all_iff [symmetric] by code_simp+

lemma alias_forms_chars: "t \<in> alias_forms \<Longrightarrow> t \<noteq> [] \<and> (\<forall>c \<in> set t. form_char c)"
proof (induction rule: alias_forms.induct)
  case (form_alias k)
  then show ?case using alias_key_plain [of k] by (auto simp: form_char_def)
next
  case (form_array t)
  with literal_form_chars(3) show ?case unfolding set_append by blast
next
  case (form_nullable t)
  with literal_form_chars(1,4) show ?case unfolding set_append by blast
next
  case (form_system_nullable t)
  with literal_form_chars(2,4) show ?case unfolding set_append by blast
next
  case (form_question t)
  with literal_form_chars(5) show ?case unfolding set_append by blast
next
  case (form_generic base ts)
  then have "\<forall>c \<in> set (join '','' ts). form_char c"
    using literal_form_chars(7) by (intro set_join_subset) blast+
  moreover from form_generic have "\<forall>c \<in> set base. form_char c" and "base \<noteq> []"
    by (auto simp: generic_base_def list_all_iff form_char_def)
  ultimately show ?case using literal_form_chars(4,6) unfolding set_append by blast
qed

lemma alias_forms_ends: "t \<in> alias_forms \<Longrightarrow> \<not> is_space (hd t) \<and> \<not> is_space (last t)"
proof -
  assume "t \<in> alias_forms"
  then have "t \<noteq> []" and "\<forall>c \<in> set t. form_char c" using alias_forms_chars by blast+
  then have "form_char (hd t)" and "form_char (last t)" by simp_all
  then show ?thesis by (simp add: form_char_not_space)
qed

lemma alias_forms_strip: "t \<in> alias_forms \<Longrightarrow> strip t = t"
  using alias_forms_chars alias_forms_ends by (intro strip_id) auto

lemma alias_forms_no_newline: "t \<in> alias_forms \<Longrightarrow> CHR 0x0A \<notin> set t"
  using alias_forms_chars form_char_not_newline by blast

lemma split_types_step_plain:
  "plain ch \<Longrightarrow> split_types_step (parts, buf, a, c, p) ch = (parts, buf @ [ch], a, c, p)"
  by (simp add: plain_def)

lemma passes_plain:
  assumes "\<forall>ch \<in> set s. plain ch"
  shows "passes s"
proof -
  have "foldl split_types_step (parts, buf, a, c, p) s = (parts, buf @ s, a, c, p)" for parts buf a c p
    using assms
  proof (induction s arbitrary: buf)
    case Nil
    show ?case by simp
  next
    case (Cons ch s)
    then have "split_types_step (parts, buf, a, c, p) ch = (parts, buf @ [ch], a, c, p)"
      by (intro split_types_step_plain) simp
    with Cons show ?case by (simp del: split_types_step.simps)
  qed
  then show ?thesis by (simp add: passes_def)
qed

lemma passes_Nil: "passes []"
  by (simp add: passes_def)

lemma passes_append: "passes a \<Longrightarrow> passes b \<Longrightarrow> passes (a @ b)"
  by (simp add: passes_def)

lemma passes_inside_append: "passes_inside a \<Longrightarrow> passes_inside b \<Longrightarrow> passes_inside (a @ b)"
  by (simp add: passes_inside_def)

lemma passes_inside_of_passes: "passes t \<Longrightarrow> passes_inside t"
  by (simp add: passes_def passes_inside_def)

lemma passes_inside_comma: "passes_inside '',''"
  by (simp add: passes_inside_def)

lemma passes_braces: "passes_inside s \<Longrightarrow> passes (''{'' @ s @ ''}'')"
proof -
  assume s: "passes_inside s"
  have "foldl split_types_step (parts, buf, 0, c, 0) (''{'' @ s @ ''}'') = (parts, buf @ ''{'' @ s @ ''}'', 0, c, 0)"
    if "0 \<le> c" for parts buf c
  proof -
    have "foldl split_types_step (parts, buf, 0, c, 0) (''{'' @ s @ ''}'')
        = foldl split_types_step (foldl split_types_step (parts, buf @ ''{'', 0, c + 1, 0) s) ''}''"
      by simp
    also have "foldl split_types_step (parts, buf @ ''{'', 0, c + 1, 0) s = (parts, (buf @ ''{'') @ s, 0, c + 1, 0)"
      using s that by (simp add: passes_inside_def)
    also have "foldl split_types_step (parts, (buf @ ''{'') @ s, 0, c + 1, 0) ''}''
        = (parts, buf @ ''{'' @ s @ ''}'', 0, c, 0)"
      using that by simp
    finally show ?thesis .
  qed
  then show ?thesis by (simp add: passes_def)
qed

lemma passes_inside_join: "\<forall>t \<in> set ts. passes t \<Longrightarrow> passes_inside (join '','' ts)"
proof (induction "'',''" ts rule: join.induct)
  case 1
  show ?case by (simp add: passes_inside_def)
next
  case (2 x)
  then show ?case by (simp add: passes_inside_of_passes)
next
  case (3 x y ys)
  then have "passes_inside x" and "passes_inside (join '','' (y # ys))"
    by (simp_all add: passes_inside_of_passes)
  then have "passes_inside (x @ '','' @ join '','' (y # ys))"
    by (intro passes_inside_append passes_inside_comma)
  then show ?case by simp
qed

lemma word_plain: "is_word ch \<or> ch = CHR ''.'' \<Longrightarrow> plain ch"
proof -
  assume "is_word ch \<or> ch = CHR ''.''"
  moreover have "list_all (\<lambda>c. \<not> is_word c) ''<>{}(),''" by code_simp
  then have "\<not> is_word ch" if "ch \<in> set ''<>{}(),''"
    using that unfolding list_all_iff by blast
  ultimately show ?thesis unfolding plain_def by auto
qed

lemma passes_plain_list: "list_all plain s \<Longrightarrow> passes s"
  unfolding list_all_iff by (rule passes_plain)

lemma literal_passes:
  "passes ''[]''" "passes ''?''" "passes ''Nullable''" "passes ''System.Nullable''"
proof -
  have "list_all plain ''[]''" by code_simp
  then show "passes ''[]''" by (rule passes_plain_list)
  have "list_all plain ''?''" by code_simp
  then show "passes ''?''" by (rule passes_plain_list)
  have "list_all plain ''Nullable''" by code_simp
  then show "passes ''Nullable''" by (rule passes_plain_list)
  have "list_all plain ''System.Nullable''" by code_simp
  then show "passes ''System.Nullable''" by (rule passes_plain_list)
qed

lemma alias_forms_passes: "t \<in> alias_forms \<Longrightarrow> passes t"
proof (induction rule: alias_forms.induct)
  case (form_alias k)
  then have "\<forall>ch \<in> set k. plain ch" using alias_key_plain [of k] word_plain by blast
  then show ?case by (rule passes_plain)
next
  case (form_array t)
  from form_array.IH literal_passes(1) show ?case by (rule passes_append)
next
  case (form_nullable t)
  have "passes (''{'' @ t @ ''}'')"
    using form_nullable.IH by (intro passes_braces passes_inside_of_passes)
  with literal_passes(3) have "passes (''Nullable'' @ ''{'' @ t @ ''}'')" by (rule passes_append)
  then show ?case by simp
next
  case (form_system_nullable t)
  have "passes (''{'' @ t @ ''}'')"
    using form_system_nullable.IH by (intro passes_braces passes_inside_of_passes)
  with literal_passes(4) have "passes (''System.Nullable'' @ ''{'' @ t @ ''}'')" by (rule passes_append)
  then show ?case by simp
next
  case (form_question t)
  from form_question.IH literal_passes(2) show ?case by (rule passes_append)
next
  case (form_generic base ts)
  from form_generic(1) have "\<forall>ch \<in> set base. plain ch"
    using word_plain unfolding generic_base_def list_all_iff by blast
  then have "passes base" by (rule passes_plain)
  moreover have "passes (''{'' @ join '','' ts @ ''}'')"
    using form_generic.IH by (intro passes_braces passes_inside_join) blast
  ultimately show ?case by (rule passes_append)
qed

lemma foldl_join_top:
  "ts \<noteq> [] \<Longrightarrow> \<forall>t \<in> set ts. passes t \<Longrightarrow>
   foldl split_types_step (parts, [], 0, 0, 0) (join '','' ts)
     = (parts @ map strip (butlast ts), last ts, 0, 0, 0)"
proof (induction "'',''" ts arbitrary: parts rule: join.induct)
  case 1
  then show ?case by simp
next
  case (2 x)
  then show ?case by (simp add: passes_def)
next
  case (3 x y ys)
  from "3.prems" have x: "foldl split_types_step (parts, [], 0, 0, 0) x = (parts, x, 0, 0, 0)"
    by (simp add: passes_def)
  have "foldl split_types_step (parts, [], 0, 0, 0) (join '','' (x # y # ys))
      = foldl split_types_step (foldl split_types_step (foldl split_types_step (parts, [], 0, 0, 0) x) '','')
          (join '','' (y # ys))"
    by simp
  also have "\<dots> = foldl split_types_step (parts @ [strip x], [], 0, 0, 0) (join '','' (y # ys))"
    unfolding x by simp
  also have "\<dots> = ((parts @ [strip x]) @ map strip (butlast (y # ys)), last (y # ys), 0, 0, 0)"
    using "3.prems" by (intro "3.hyps") simp_all
  finally show ?case by simp
qed

lemma split_types_list_join:
  assumes "ts \<noteq> []" and "\<forall>t \<in> set ts. t \<in> alias_forms"
  shows "split_types_list (join '','' ts) = ts"
proof -
  from assms(2) have p: "\<forall>t \<in> set ts. passes t" using alias_forms_passes by blast
  from assms(2) have s: "map strip ts = ts" using alias_forms_strip by (intro map_idI) blast
  from assms(2) have ne: "\<forall>t \<in> set ts. t \<noteq> []" using alias_forms_chars by blast
  with assms(1) have l: "last ts \<noteq> []" by simp
  have "split_types_list (join '','' ts)
      = filter (\<lambda>p. p \<noteq> []) (map strip (butlast ts) @ [strip (last ts)])"
    using foldl_join_top [OF assms(1) p, of "[]"] l by (simp add: split_types_list_def)
  also have "map strip (butlast ts) @ [strip (last ts)] = map strip (butlast ts @ [last ts])" by simp
  also have "butlast ts @ [last ts] = ts" using assms(1) by simp
  finally show ?thesis using s ne by simp
qed

lemma endswith_last: "endswith s p \<Longrightarrow> p \<noteq> [] \<Longrightarrow> last s = last p"
  by (auto simp: endswith_def suffix_def)

lemma endswith_append: "endswith (s @ p) p"
  by (simp add: endswith_def suffix_def)

lemma match_tail_brace: "g \<noteq> [] \<Longrightarrow> CHR 0x0A \<notin> set g \<Longrightarrow> match_tail (g @ ''}'') = Some g"
proof -
  assume g: "g \<noteq> []" "CHR 0x0A \<notin> set g"
  have "\<not> endswith (g @ ''}'') [CHR ''}'', CHR 0x0A]"
    using endswith_last [of "g @ ''}''" "[CHR ''}'', CHR 0x0A]"] by auto
  moreover have "endswith (g @ ''}'') ''}''" by (rule endswith_append)
  ultimately show ?thesis using g by (simp add: match_tail_def)
qed

lemma match_tail_None: "r = [] \<or> (last r \<noteq> CHR ''}'' \<and> last r \<noteq> CHR 0x0A) \<Longrightarrow> match_tail r = None"
proof -
  assume r: "r = [] \<or> (last r \<noteq> CHR ''}'' \<and> last r \<noteq> CHR 0x0A)"
  have "\<not> endswith r [CHR ''}'', CHR 0x0A]"
    using r endswith_last [of r "[CHR ''}'', CHR 0x0A]"] by (auto simp: endswith_def)
  moreover have "\<not> endswith r ''}''"
    using r endswith_last [of r "''}''"] by (auto simp: endswith_def)
  ultimately show ?thesis by (simp add: match_tail_def)
qed

lemma match_nullable_None:
  assumes "last W \<noteq> CHR ''}''" and "last W \<noteq> CHR 0x0A"
  shows "match_nullable W = None"
proof -
  have "match_tail (drop n W) = None" for n
    using assms by (intro match_tail_None) (auto simp: last_drop)
  then show ?thesis by (simp add: match_nullable_def)
qed

lemma last_dropWhile: "dropWhile P s = c # r \<Longrightarrow> r \<noteq> [] \<Longrightarrow> last r = last s"
proof -
  assume d: "dropWhile P s = c # r" and r: "r \<noteq> []"
  have "s = takeWhile P s @ dropWhile P s" by simp
  then have "last s = last (takeWhile P s @ c # r)" using d by simp
  with r show ?thesis by simp
qed

lemma match_generic_None:
  assumes "last W \<noteq> CHR ''}''" and "last W \<noteq> CHR 0x0A"
  shows "match_generic W = None"
proof (cases "dropWhile (\<lambda>c. is_word c \<or> c = CHR ''.'') W")
  case Nil
  show ?thesis unfolding match_generic_def Let_def Nil by simp
next
  case (Cons c r)
  have "match_tail r = None"
    using assms last_dropWhile [OF Cons] by (intro match_tail_None) auto
  then show ?thesis unfolding match_generic_def Let_def Cons by simp
qed

lemma alias_keys_last: "list_all (\<lambda>k. last k \<noteq> CHR '']'' \<and> last k \<noteq> CHR ''?'') (map fst aliases)"
  by code_simp

lemma not_alias_key: "last W = CHR '']'' \<or> last W = CHR ''?'' \<Longrightarrow> map_of aliases W = None"
proof -
  assume "last W = CHR '']'' \<or> last W = CHR ''?''"
  then have "W \<notin> set (map fst aliases)" using alias_keys_last unfolding list_all_iff by blast
  then show ?thesis by (simp add: map_of_eq_None_iff)
qed

lemma settled_normalize:
  assumes "settled W"
  shows "map_dotnet_to_python W container_fqn container_simple
    = (if map_of aliases W = None \<and> container_simple = Some W \<and> truthy container_fqn
       then fmt container_fqn else W)"
proof -
  from assms have r: "strip W = W" "\<not> endswith W ''[]''" "match_nullable W = None"
    "\<not> (endswith W ''?'' \<and> \<not> endswith W ''??'')" "match_generic W = None"
    "map_of aliases W = None \<or> map_of aliases W = Some W" "W \<noteq> []"
    by (simp_all add: settled_def)
  show ?thesis
    unfolding map_dotnet_to_python.simps [of W container_fqn container_simple] Let_def r(1)
    using r(2-7) by (auto simp: truthy_def)
qed

lemma bracket_label_settled:
  assumes "\<forall>c \<in> set P. \<not> is_space c" and "X \<noteq> []" and "last X \<noteq> CHR ''[''"
  shows "settled (P @ ''['' @ X @ '']'')"
proof -
  let ?W = "P @ ''['' @ X @ '']''"
  have l: "last ?W = CHR '']''" by simp
  have "\<not> is_space (hd ?W)" using assms(1) by (cases P) (simp_all add: is_space_def)
  moreover have "\<not> is_space (last ?W)" unfolding l by (simp add: is_space_def)
  ultimately have 1: "strip ?W = ?W" by (intro strip_id) simp_all
  have 2: "\<not> endswith ?W ''[]''"
  proof
    assume "endswith ?W ''[]''"
    then obtain zs where "?W = zs @ ''[]''" by (auto simp: endswith_def suffix_def)
    then have "(P @ ''['' @ butlast X) @ [last X, CHR '']''] = zs @ [CHR ''['', CHR '']'']"
      using assms(2) by simp
    then have "last (butlast ((P @ ''['' @ butlast X) @ [last X, CHR '']'']))
        = last (butlast (zs @ [CHR ''['', CHR '']'']))" by simp
    then have "last X = CHR ''[''" by (simp add: butlast_append)
    with assms(3) show False by simp
  qed
  have 3: "match_nullable ?W = None" by (rule match_nullable_None) (simp_all only: l, simp_all)
  have 4: "\<not> (endswith ?W ''?'' \<and> \<not> endswith ?W ''??'')"
    using endswith_last [of ?W "''?''"] by (auto simp only: l) simp
  have 5: "match_generic ?W = None" by (rule match_generic_None) (simp_all only: l, simp_all)
  have 6: "map_of aliases ?W = None" by (rule not_alias_key) (simp only: l, simp)
  have 7: "?W \<noteq> []" and 8: "last ?W \<noteq> CHR ''[''" by simp_all
  from 1 2 3 4 5 6 7 8 show ?thesis unfolding settled_def by blast
qed

lemma takeWhile_run: "\<forall>x \<in> set xs. P x \<Longrightarrow> \<not> P y \<Longrightarrow> takeWhile P (xs @ y # ys) = xs"
  by (induction xs) simp_all

lemma dropWhile_run: "\<forall>x \<in> set xs. P x \<Longrightarrow> \<not> P y \<Longrightarrow> dropWhile P (xs @ y # ys) = y # ys"
  by (induction xs) simp_all

lemma prefix_before_brace:
  assumes "prefix (n @ ''{'') (base @ ''{'' @ r)" and "CHR ''{'' \<notin> set n" and "CHR ''{'' \<notin> set base"
  shows "n = base"
proof -
  from assms(1) obtain z where z: "base @ ''{'' @ r = (n @ ''{'') @ z" by (auto simp: prefix_def)
  have "takeWhile (\<lambda>c. c \<noteq> CHR ''{'') (base @ CHR ''{'' # r) = base"
    using assms(3) by (intro takeWhile_run) auto
  moreover have "takeWhile (\<lambda>c. c \<noteq> CHR ''{'') (n @ CHR ''{'' # z) = n"
    using assms(2) by (intro takeWhile_run) auto
  ultimately show ?thesis using z by simp
qed

lemma word_no_brace: "\<forall>c \<in> set s. is_word c \<or> c = CHR ''.'' \<Longrightarrow> CHR ''{'' \<notin> set s"
  using word_not_special by auto

lemma normalize_array:
  assumes "t \<in> alias_forms"
  shows "map_dotnet_to_python (t @ ''[]'') f c = ''List['' @ map_dotnet_to_python t f c @ '']''"
proof -
  let ?W = "t @ ''[]''"
  have "?W \<in> alias_forms" using assms by (rule alias_forms.form_array)
  then have s: "strip ?W = ?W" by (rule alias_forms_strip)
  have e: "endswith ?W ''[]''" by (rule endswith_append)
  have i: "strip (take (length ?W - 2) ?W) = t" using assms by (simp add: alias_forms_strip)
  show ?thesis
    unfolding map_dotnet_to_python.simps [of ?W f c] Let_def s using e i by simp
qed

lemma normalize_nullable:
  assumes "t \<in> alias_forms" and "pre = ''Nullable{'' \<or> pre = ''System.Nullable{''"
  shows "map_dotnet_to_python (pre @ t @ ''}'') f c = ''Optional['' @ map_dotnet_to_python t f c @ '']''"
proof -
  let ?W = "pre @ t @ ''}''"
  from assms have "?W \<in> alias_forms"
    using alias_forms.form_nullable [of t] alias_forms.form_system_nullable [of t] by auto
  then have s: "strip ?W = ?W" by (rule alias_forms_strip)
  have e: "\<not> endswith ?W ''[]''" using endswith_last [of ?W "''[]''"] by auto
  from assms(1) have g: "t \<noteq> []" "CHR 0x0A \<notin> set t"
    using alias_forms_chars alias_forms_no_newline by blast+
  then have "match_tail (t @ ''}'') = Some t" by (rule match_tail_brace)
  with assms(2) have m: "match_nullable ?W = Some t"
    by (auto simp: match_nullable_def startswith_def)
  have i: "strip t = t" using assms(1) by (rule alias_forms_strip)
  show ?thesis
    unfolding map_dotnet_to_python.simps [of ?W f c] Let_def s using e m i by simp
qed

lemma normalize_question:
  assumes "t \<in> alias_forms" and "\<not> endswith t ''?''"
  shows "map_dotnet_to_python (t @ ''?'') f c = ''Optional['' @ map_dotnet_to_python t f c @ '']''"
proof -
  let ?W = "t @ ''?''"
  have "?W \<in> alias_forms" using assms(1) by (rule alias_forms.form_question)
  then have s: "strip ?W = ?W" by (rule alias_forms_strip)
  have e: "\<not> endswith ?W ''[]''" using endswith_last [of ?W "''[]''"] by auto
  have m: "match_nullable ?W = None" by (rule match_nullable_None) simp_all
  have q: "endswith ?W ''?''" by (rule endswith_append)
  have qq: "\<not> endswith ?W ''??''"
  proof
    assume "endswith ?W ''??''"
    then obtain zs where "t @ ''?'' = zs @ ''??''" by (auto simp: endswith_def suffix_def)
    then have "t @ ''?'' = (zs @ ''?'') @ ''?''" by simp
    then have "t = zs @ ''?''" by (simp only: append_same_eq)
    with assms(2) show False by (simp add: endswith_def suffix_def)
  qed
  show ?thesis
    unfolding map_dotnet_to_python.simps [of ?W f c] Let_def s using e m q qq by simp
qed

lemma double_question_settled:
  assumes "t \<in> alias_forms" and "endswith t ''?''"
  shows "settled (t @ ''?'')"
proof -
  let ?W = "t @ ''?''"
  have "?W \<in> alias_forms" using assms(1) by (rule alias_forms.form_question)
  then have 1: "strip ?W = ?W" by (rule alias_forms_strip)
  have 2: "\<not> endswith ?W ''[]''" using endswith_last [of ?W "''[]''"] by auto
  have 3: "match_nullable ?W = None" by (rule match_nullable_None) simp_all
  from assms(2) obtain zs where "t = zs @ ''?''" by (auto simp: endswith_def suffix_def)
  then have "endswith ?W ''??''" by (simp add: endswith_def suffix_def)
  then have 4: "\<not> (endswith ?W ''?'' \<and> \<not> endswith ?W ''??'')" by simp
  have 5: "match_generic ?W = None" by (rule match_generic_None) simp_all
  have 6: "map_of aliases ?W = None" by (rule not_alias_key) simp
  have 7: "?W \<noteq> []" and 8: "last ?W \<noteq> CHR ''[''" by simp_all
  from 1 2 3 4 5 6 7 8 show ?thesis unfolding settled_def by blast
qed

lemma normalize_generic:
  assumes "generic_base base" and "ts \<noteq> []" and "\<forall>t \<in> set ts. t \<in> alias_forms"
  shows "map_dotnet_to_python (base @ ''{'' @ join '','' ts @ ''}'') f c
    = (case map_of generic_base_map base of Some b \<Rightarrow> b | None \<Rightarrow> last (split base ''.''))
      @ ''['' @ join '', '' (map (\<lambda>p. map_dotnet_to_python p f c) ts) @ '']''"
proof -
  let ?inner = "join '','' ts"
  let ?W = "base @ ''{'' @ ?inner @ ''}''"
  let ?P = "\<lambda>c. is_word c \<or> c = CHR ''.''"
  from assms(1) have base: "base \<noteq> []" "\<forall>c \<in> set base. ?P c"
    and names: "base \<noteq> ''Nullable''" "base \<noteq> ''System.Nullable''"
    by (auto simp: generic_base_def list_all_iff)
  have "?W \<in> alias_forms" using assms by (rule alias_forms.form_generic)
  then have s: "strip ?W = ?W" by (rule alias_forms_strip)
  have e: "\<not> endswith ?W ''[]''" using endswith_last [of ?W "''[]''"] by auto
  have nb: "CHR ''{'' \<notin> set base" using base(2) by (rule word_no_brace)
  have "\<not> startswith ?W ''Nullable{''"
  proof
    assume "startswith ?W ''Nullable{''"
    then have "prefix (''Nullable'' @ ''{'') (base @ ''{'' @ ?inner @ ''}'')" by (simp add: startswith_def)
    then have "''Nullable'' = base" by (rule prefix_before_brace) (simp_all add: nb)
    with names show False by simp
  qed
  moreover have "\<not> startswith ?W ''System.Nullable{''"
  proof
    assume "startswith ?W ''System.Nullable{''"
    then have "prefix (''System.Nullable'' @ ''{'') (base @ ''{'' @ ?inner @ ''}'')" by (simp add: startswith_def)
    then have "''System.Nullable'' = base" by (rule prefix_before_brace) (simp_all add: nb)
    with names show False by simp
  qed
  ultimately have m: "match_nullable ?W = None" by (simp add: match_nullable_def)
  have q: "\<not> endswith ?W ''?''" using endswith_last [of ?W "''?''"] by auto
  have notP: "\<not> ?P CHR ''{''" using word_not_special by simp
  have tw: "takeWhile ?P (base @ CHR ''{'' # ?inner @ ''}'') = base"
    using base(2) notP by (intro takeWhile_run) blast+
  have dw: "dropWhile ?P (base @ CHR ''{'' # ?inner @ ''}'') = CHR ''{'' # ?inner @ ''}''"
    using base(2) notP by (intro dropWhile_run) blast+
  from assms(3) have ne: "\<forall>t \<in> set ts. t \<noteq> []" using alias_forms_chars by blast
  with assms(2) have i1: "?inner \<noteq> []" by (rule join_nonempty)
  have "\<forall>c \<in> set ?inner. form_char c"
    using assms(3) alias_forms_chars literal_form_chars(7) by (intro set_join_subset) blast+
  then have i2: "CHR 0x0A \<notin> set ?inner" using form_char_not_newline by blast
  from i1 i2 have "match_tail (?inner @ ''}'') = Some ?inner" by (rule match_tail_brace)
  with tw dw base(1) have g: "match_generic ?W = Some (base, ?inner)"
    by (simp add: match_generic_def Let_def)
  have sp: "split_types_list ?inner = ts" using assms(2,3) by (rule split_types_list_join)
  show ?thesis
    unfolding map_dotnet_to_python.simps [of ?W f c] Let_def s using e m q g sp by simp
qed

lemma alias_keys_plain:
  "list_all (\<lambda>kv. strip (fst kv) = fst kv \<and> \<not> endswith (fst kv) ''[]'' \<and> match_nullable (fst kv) = None
      \<and> \<not> endswith (fst kv) ''?'' \<and> match_generic (fst kv) = None
      \<and> map_of aliases (fst kv) = Some (snd kv) \<and> settled (snd kv)) aliases"
  by code_simp

lemma normalize_alias:
  assumes "(k, v) \<in> set aliases"
  shows "map_dotnet_to_python k f c = v" and "settled v"
proof -
  from assms alias_keys_plain have r: "strip k = k" "\<not> endswith k ''[]''" "match_nullable k = None"
    "\<not> endswith k ''?''" "match_generic k = None" "map_of aliases k = Some v" and s: "settled v"
    unfolding list_all_iff by force+
  show "map_dotnet_to_python k f c = v"
    unfolding map_dotnet_to_python.simps [of k f c] Let_def r(1) using r(2-6) by simp
  show "settled v" by (rule s)
qed

lemma generic_base_map_values: "list_all (\<lambda>kv. list_all (\<lambda>c. \<not> is_space c) (snd kv)) generic_base_map"
  by code_simp

lemma split_nonempty_last: "last (split s sep) \<in> set (split s sep)"
  using split_nonempty by simp

lemma last_join_both:
  "xs \<noteq> [] \<Longrightarrow> last xs \<noteq> [] \<Longrightarrow> join sep xs \<noteq> [] \<and> last (join sep xs) = last (last xs)"
  by (induction sep xs rule: join.induct) auto

lemma last_join: "xs \<noteq> [] \<Longrightarrow> last xs \<noteq> [] \<Longrightarrow> last (join sep xs) = last (last xs)"
  using last_join_both by blast

lemma generic_base_no_space: "generic_base base \<Longrightarrow> c \<in> set base \<Longrightarrow> \<not> is_space c"
proof -
  assume "generic_base base" and "c \<in> set base"
  then have "is_word c \<or> c = CHR ''.''" by (simp add: generic_base_def list_all_iff)
  moreover have "\<not> is_space CHR ''.''" by (simp add: is_space_def)
  ultimately show ?thesis using word_not_space by blast
qed

lemma generic_base_map_value_no_space:
  assumes "(base, b) \<in> set generic_base_map" and "c \<in> set b"
  shows "\<not> is_space c"
proof -
  have "\<forall>kv \<in> set generic_base_map. \<forall>c \<in> set (snd kv). \<not> is_space c"
    using generic_base_map_values by (simp only: list_all_iff)
  then have "\<forall>c \<in> set (snd (base, b)). \<not> is_space c" using assms(1) by (rule bspec)
  with assms(2) show ?thesis by simp
qed

lemma py_base_no_space:
  assumes "generic_base base"
  shows "\<forall>c \<in> set (case map_of generic_base_map base of Some b \<Rightarrow> b | None \<Rightarrow> last (split base ''.'')).
           \<not> is_space c"
proof (cases "map_of generic_base_map base")
  case None
  have "last (split base ''.'') \<in> set (split base ''.'')" by (rule split_nonempty_last)
  then have "set (last (split base ''.'')) \<subseteq> set base" by (rule set_split)
  then have "\<forall>c \<in> set (last (split base ''.'')). \<not> is_space c"
    using generic_base_no_space [OF assms] by blast
  then show ?thesis unfolding None by simp
next
  case (Some b)
  then have "(base, b) \<in> set generic_base_map" by (rule map_of_SomeD)
  then have "\<forall>c \<in> set b. \<not> is_space c" using generic_base_map_value_no_space by blast
  then show ?thesis unfolding Some by simp
qed

lemma settled_inside: "settled X \<Longrightarrow> X \<noteq> [] \<and> last X \<noteq> CHR ''[''"
  by (simp add: settled_def)

lemma normalize_settled:
  assumes "t \<in> alias_forms" and "\<forall>s. c = Some s \<longrightarrow> CHR ''?'' \<notin> set s"
  shows "settled (map_dotnet_to_python t f c)"
  using assms(1)
proof (induction rule: alias_forms.induct)
  case (form_alias k)
  then obtain v where "(k, v) \<in> set aliases" by auto
  then show ?case using normalize_alias(1) [of k v f c] normalize_alias(2) [of k v] by simp
next
  case (form_array t)
  have "\<forall>c \<in> set ''List''. \<not> is_space c" by (simp add: is_space_def)
  then have "settled (''List'' @ ''['' @ map_dotnet_to_python t f c @ '']'')"
    using settled_inside [OF form_array.IH] by (intro bracket_label_settled) simp_all
  then show ?case using normalize_array [OF form_array.hyps, of f c] by simp
next
  case (form_nullable t)
  have "\<forall>c \<in> set ''Optional''. \<not> is_space c" by (simp add: is_space_def)
  then have "settled (''Optional'' @ ''['' @ map_dotnet_to_python t f c @ '']'')"
    using settled_inside [OF form_nullable.IH] by (intro bracket_label_settled) simp_all
  then show ?case using normalize_nullable [OF form_nullable.hyps, of "''Nullable{''" f c] by simp
next
  case (form_system_nullable t)
  have "\<forall>c \<in> set ''Optional''. \<not> is_space c" by (simp add: is_space_def)
  then have "settled (''Optional'' @ ''['' @ map_dotnet_to_python t f c @ '']'')"
    using settled_inside [OF form_system_nullable.IH] by (intro bracket_label_settled) simp_all
  then show ?case
    using normalize_nullable [OF form_system_nullable.hyps, of "''System.Nullable{''" f c] by simp
next
  case (form_question t)
  show ?case
  proof (cases "endswith t ''?''")
    case True
    with form_question.hyps have s: "settled (t @ ''?'')" by (rule double_question_settled)
    have "c \<noteq> Some (t @ ''?'')" using assms(2) by auto
    with s have "map_dotnet_to_python (t @ ''?'') f c = t @ ''?''"
      by (simp add: settled_normalize)
    with s show ?thesis by simp
  next
    case False
    have "\<forall>c \<in> set ''Optional''. \<not> is_space c" by (simp add: is_space_def)
    then have "settled (''Optional'' @ ''['' @ map_dotnet_to_python t f c @ '']'')"
      using settled_inside [OF form_question.IH] by (intro bracket_label_settled) simp_all
    then show ?thesis using normalize_question [OF form_question.hyps False, of f c] by simp
  qed
next
  case (form_generic base ts)
  let ?N = "\<lambda>p. map_dotnet_to_python p f c"
  let ?X = "join '', '' (map ?N ts)"
  from form_generic have forms: "\<forall>t \<in> set ts. t \<in> alias_forms"
    and each: "\<forall>t \<in> set ts. settled (?N t)" by blast+
  from each have ne: "\<forall>x \<in> set (map ?N ts). x \<noteq> []" by (auto simp: settled_def)
  with form_generic(2) have x1: "?X \<noteq> []" by (intro join_nonempty) simp_all
  from form_generic(2) have "last (map ?N ts) = ?N (last ts)" by (simp add: last_map)
  moreover from form_generic(2) each have "settled (?N (last ts))" by simp
  ultimately have "last ?X = last (?N (last ts))" and "last (?N (last ts)) \<noteq> CHR ''[''"
    using form_generic(2) last_join [of "map ?N ts" "'', ''"] by (simp_all add: settled_def)
  then have x2: "last ?X \<noteq> CHR ''[''" by simp
  let ?P = "case map_of generic_base_map base of Some b \<Rightarrow> b | None \<Rightarrow> last (split base ''.'')"
  have "\<forall>c \<in> set ?P. \<not> is_space c" using form_generic(1) by (rule py_base_no_space)
  then have "settled (?P @ ''['' @ ?X @ '']'')" using x1 x2 by (rule bracket_label_settled)
  then show ?case using normalize_generic [OF form_generic(1,2) forms, of f c] by simp
qed

lemma normalize_twice:
  assumes "t \<in> alias_forms" and "\<forall>s. c = Some s \<longrightarrow> CHR ''?'' \<notin> set s"
  shows "map_dotnet_to_python (map_dotnet_to_python t f c) f c
    = (if map_of aliases (map_dotnet_to_python t f c) = None \<and> c = Some (map_dotnet_to_python t f c)
          \<and> truthy f
       then fmt f else map_dotnet_to_python t f c)"
  using normalize_settled [OF assms] by (rule settled_normalize)

subsection \<open>The labels the free-text mapper maps to themselves\<close>

lemma map_type_table:
  "base_map style = base_map style' \<Longrightarrow> map_type lim style label = map_type lim style' label"
proof (induction lim style label rule: map_type.induct)
  case (1 lim style label)
  show ?case
    using 1
    by (simp add: map_type.simps [of lim style label] map_type.simps [of lim style' label] Let_def
        cong: if_cong option.case_cong sum.case_cong prod.case_cong)
qed

lemma first_mapped_value: "first_mapped m ps = Some mt \<Longrightarrow> mt \<in> set (map snd m)"
proof (induction ps)
  case Nil
  then show ?case by simp
next
  case (Cons p ps)
  show ?case
  proof (cases "map_of m p")
    case None
    with Cons show ?thesis by simp
  next
    case (Some v)
    then have "(p, v) \<in> set m" by (rule map_of_SomeD)
    then have "v \<in> set (map snd m)" by force
    with Cons Some show ?thesis by (cases "v = []") simp_all
  qed
qed

lemma first_mapped_final: "first_mapped (base_map style) ps = Some mt \<Longrightarrow> mt \<in> set (finals style)"
  using first_mapped_value [of "base_map style" ps mt] by (simp add: finals_def)

lemma get_label_final: "get_label (base_map style) key = Inr r \<Longrightarrow> r \<in> set (finals style)"
proof -
  assume "get_label (base_map style) key = Inr r"
  then have "map_of (base_map style) key = Some r" by (simp add: get_label_def split: option.splits)
  then have "(key, r) \<in> set (base_map style)" by (rule map_of_SomeD)
  then have "r \<in> set (map snd (base_map style))" by force
  then show ?thesis by (simp add: finals_def)
qed

lemma subscript_final: "subscript (base_map style) key = Inr r \<Longrightarrow> r \<in> set (finals style)"
proof -
  assume "subscript (base_map style) key = Inr r"
  then have "map_of (base_map style) key = Some r" by (simp add: subscript_def split: option.splits)
  then have "(key, r) \<in> set (base_map style)" by (rule map_of_SomeD)
  then have "r \<in> set (map snd (base_map style))" by force
  then show ?thesis by (simp add: finals_def)
qed

lemma tuple_of_bracketed: "tuple_of lim s n = Inr r \<Longrightarrow> bracketed r"
  by (auto simp: tuple_of_def Let_def bracketed_def startswith_def split: option.splits)

lemma any_final: "''Any'' \<in> set (finals style)"
  by (simp add: finals_def)

lemma guid_list_final:
  "''List['' @ (case map_of (base_map style) ''guid'' of Some g \<Rightarrow> g | None \<Rightarrow> ''str'') @ '']''
     \<in> set (finals style)"
  by (simp add: finals_def)

lemma map_type_range:
  "map_type lim style label = Inr r \<Longrightarrow> r \<in> set (finals style) \<or> bracketed r"
proof (induction lim style label arbitrary: r rule: map_type.induct)
  case (1 lim style label)
  have w: "bracketed (''List['' @ s @ '']'')" for s by (simp add: bracketed_def startswith_def)
  have t: "bracketed ''Tuple[Any, ...]''" "bracketed ''List[str]''"
    by (simp_all add: bracketed_def startswith_def)
  from "1.prems" show ?case
    unfolding map_type.simps [of lim style label] Let_def
    using "1.IH" w t
    by (auto simp: wrap_def any_final
        dest: first_mapped_final get_label_final subscript_final tuple_of_bracketed
        split: if_splits option.splits sum.splits prod.splits)
qed

lemma prefix_cut: "prefix p (a @ z) \<Longrightarrow> set p \<inter> set z = {} \<Longrightarrow> prefix p a"
proof -
  assume p: "prefix p (a @ z)" and d: "set p \<inter> set z = {}"
  from p consider "prefix p a" | us where "p = a @ us" "prefix us z" by (auto simp: prefix_append)
  then show ?thesis
  proof cases
    case 1
    then show ?thesis .
  next
    case 2
    from 2(2) have "set us \<subseteq> set z" by (rule set_mono_prefix)
    moreover from 2(1) have "set us \<subseteq> set p" by auto
    ultimately have "us = []" using d by (cases us) auto
    with 2(1) show ?thesis by simp
  qed
qed

lemma strip_tail: "\<exists>z. dropWhile is_space s = strip s @ z \<and> (\<forall>c \<in> set z. is_space c)"
proof -
  let ?d = "dropWhile is_space s"
  have "?d = rev (dropWhile is_space (rev ?d)) @ rev (takeWhile is_space (rev ?d))"
    by (metis rev_append rev_rev_ident takeWhile_dropWhile_id)
  moreover have "\<forall>c \<in> set (rev (takeWhile is_space (rev ?d))). is_space c"
    by (auto dest: set_takeWhileD)
  ultimately show ?thesis unfolding strip_def by blast
qed

lemma prefix_strip:
  assumes "prefix p a" and "p \<noteq> []" and "\<forall>c \<in> set p. \<not> is_space c"
  shows "prefix p (strip a)"
proof -
  from assms(1,2) obtain c r where a: "a = c # r" and c: "c \<in> set p"
    by (cases p; cases a) (auto simp: prefix_def)
  with assms(3) have "dropWhile is_space a = a" by simp
  then obtain z where z: "a = strip a @ z" "\<forall>c \<in> set z. is_space c" using strip_tail [of a] by auto
  from assms(3) z(2) have "set p \<inter> set z = {}" by auto
  with assms(1) z(1) show ?thesis using prefix_cut [of p "strip a" z] by simp
qed

lemma prefix_norm:
  assumes "prefix p a" and "p \<noteq> []" and "\<forall>c \<in> set p. \<not> is_space c" and "lower p = p"
  shows "prefix p (norm a)"
proof -
  from assms(1,2,3) have "prefix p (strip a)" by (rule prefix_strip)
  then have "prefix (map lower_char p) (map lower_char (strip a))" by (rule map_mono_prefix)
  with assms(4) show ?thesis by (simp add: norm_def lower_def)
qed

lemma prefix_split1:
  assumes "prefix p t" and "contains t (c # sep)" and "c \<notin> set p"
  shows "prefix p (split1 t (c # sep) ! 0)"
proof -
  from assms(2) obtain a b where ab: "split_first (c # sep) t = Some (a, b)" by (auto simp: contains_def)
  then have t: "t = a @ (c # sep) @ b" by (rule split_first_decomp)
  have "prefix p a"
  proof (rule ccontr)
    assume n: "\<not> prefix p a"
    from assms(1) t have "prefix p (a @ c # sep @ b)" by simp
    with n obtain us where us: "p = a @ us" "prefix us (c # sep @ b)" by (auto simp: prefix_append)
    from n us(1) have "us \<noteq> []" by auto
    with us(2) have "hd us = c" by (cases us) (auto simp: prefix_def)
    with \<open>us \<noteq> []\<close> us(1) have "c \<in> set p" by (cases us) auto
    with assms(3) show False by simp
  qed
  with ab show ?thesis by (simp add: split1_def)
qed

lemma bracket_literals:
  "''list['' \<noteq> []" "\<forall>c \<in> set ''list[''. \<not> is_space c" "lower ''list['' = ''list[''"
  "''tuple['' \<noteq> []" "\<forall>c \<in> set ''tuple[''. \<not> is_space c" "lower ''tuple['' = ''tuple[''"
  "CHR '' '' \<notin> set ''list[''" "CHR '','' \<notin> set ''list[''"
  "CHR '' '' \<notin> set ''tuple[''" "CHR '','' \<notin> set ''tuple[''"
  "lower ''List['' = ''list[''" "lower ''Tuple['' = ''tuple[''"
  "\<forall>c \<in> set ''List[''. \<not> is_space c" "\<forall>c \<in> set ''Tuple[''. \<not> is_space c"
proof -
  have "list_all (\<lambda>c. \<not> is_space c) ''list[''" "list_all (\<lambda>c. \<not> is_space c) ''tuple[''"
    "list_all (\<lambda>c. \<not> is_space c) ''List[''" "list_all (\<lambda>c. \<not> is_space c) ''Tuple[''"
    by code_simp+
  then show "\<forall>c \<in> set ''list[''. \<not> is_space c" "\<forall>c \<in> set ''tuple[''. \<not> is_space c"
    "\<forall>c \<in> set ''List[''. \<not> is_space c" "\<forall>c \<in> set ''Tuple[''. \<not> is_space c"
    unfolding list_all_iff by blast+
  show "lower ''list['' = ''list[''" "lower ''tuple['' = ''tuple[''"
    "lower ''List['' = ''list[''" "lower ''Tuple['' = ''tuple[''" by code_simp+
qed simp_all

lemma bracket_start_piece:
  assumes "bracket_start t"
    and "\<And>q. q = ''list['' \<or> q = ''tuple['' \<Longrightarrow> prefix q t \<Longrightarrow> prefix q a"
  shows "bracket_start (norm a)"
proof -
  from assms(1) consider "prefix ''list['' t" | "prefix ''tuple['' t"
    by (auto simp: bracket_start_def startswith_def)
  then show ?thesis
  proof cases
    case 1
    then have "prefix ''list['' a" using assms(2) by blast
    then have "prefix ''list['' (norm a)" using bracket_literals(1,2,3) by (rule prefix_norm)
    then show ?thesis by (simp add: bracket_start_def startswith_def)
  next
    case 2
    then have "prefix ''tuple['' a" using assms(2) by blast
    then have "prefix ''tuple['' (norm a)" using bracket_literals(4,5,6) by (rule prefix_norm)
    then show ?thesis by (simp add: bracket_start_def startswith_def)
  qed
qed

lemma bracket_start_union:
  assumes "bracket_start t" and "contains t '' or ''"
  shows "bracket_start (norm (split1 t '' or '' ! 0))"
  using assms(1)
proof (rule bracket_start_piece)
  fix q :: string
  assume "q = ''list['' \<or> q = ''tuple[''" and "prefix q t"
  then show "prefix q (split1 t '' or '' ! 0)"
    using assms(2) bracket_literals(7,9) by (intro prefix_split1) auto
qed

lemma bracket_start_comma:
  assumes "bracket_start t" and "contains t '',''"
  shows "bracket_start (norm (strip (split1 t '','' ! 0)))"
proof -
  have "bracket_start (norm (split1 t '','' ! 0))"
    using assms(1)
  proof (rule bracket_start_piece)
    fix q :: string
    assume "q = ''list['' \<or> q = ''tuple[''" and "prefix q t"
    then show "prefix q (split1 t '','' ! 0)"
      using assms(2) bracket_literals(8,10) by (intro prefix_split1) auto
  qed
  then show ?thesis by (simp add: norm_strip)
qed

lemma bracket_start_rules:
  assumes "bracket_start t"
  shows "\<not> startswith t ''list of ''" "\<not> startswith t ''array of ''" "\<not> startswith t ''tuple of ''"
    "\<not> startswith t ''[''"
proof -
  have e: "take n p = take n q" if "prefix p t" "prefix q t" "n \<le> length p" "n \<le> length q" for p q n
  proof -
    from that(1) obtain zs where "t = p @ zs" by (auto simp: prefix_def)
    with that(3) have "take n t = take n p" by simp
    moreover from that(2) obtain ys where "t = q @ ys" by (auto simp: prefix_def)
    with that(4) have "take n t = take n q" by simp
    ultimately show ?thesis by simp
  qed
  from assms consider "prefix ''list['' t" | "prefix ''tuple['' t"
    by (auto simp: bracket_start_def startswith_def)
  then have "\<not> prefix ''list of '' t \<and> \<not> prefix ''array of '' t \<and> \<not> prefix ''tuple of '' t \<and> \<not> prefix ''['' t"
  proof cases
    case 1
    show ?thesis
      using e [OF 1, of "''list of ''" 5] e [OF 1, of "''array of ''" 1] e [OF 1, of "''tuple of ''" 1]
        e [OF 1, of "''[''" 1] by auto
  next
    case 2
    show ?thesis
      using e [OF 2, of "''list of ''" 1] e [OF 2, of "''array of ''" 1] e [OF 2, of "''tuple of ''" 6]
        e [OF 2, of "''[''" 1] by auto
  qed
  then show "\<not> startswith t ''list of ''" "\<not> startswith t ''array of ''" "\<not> startswith t ''tuple of ''"
    "\<not> startswith t ''[''"
    by (simp_all add: startswith_def)
qed

lemma bracket_final:
  "bracket_start (norm label) \<Longrightarrow> map_type lim style label = Inr r \<Longrightarrow> r \<in> set (finals style)"
proof (induction lim style label arbitrary: r rule: map_type.induct)
  case (1 lim style label)
  note b = bracket_start_rules [OF "1.prems"(1)]
  from "1.prems"(2) show ?case
    unfolding map_type.simps [of lim style label] Let_def
    using "1.IH" b bracket_start_union [OF "1.prems"(1)] bracket_start_comma [OF "1.prems"(1)]
    by (auto simp: any_final
        dest: first_mapped_final get_label_final subscript_final
        split: if_splits option.splits)
qed

lemma bracketed_norm: "bracketed r \<Longrightarrow> bracket_start (norm r)"
proof -
  assume "bracketed r"
  then consider "prefix ''List['' r" | "prefix ''Tuple['' r" by (auto simp: bracketed_def startswith_def)
  then show ?thesis
  proof cases
    case 1
    then have "prefix ''List['' (strip r)" using bracket_literals(13) by (intro prefix_strip) simp_all
    then have "prefix (map lower_char ''List['') (map lower_char (strip r))" by (rule map_mono_prefix)
    then have "prefix ''list['' (norm r)"
      using bracket_literals(11) by (simp add: norm_def lower_def)
    then show ?thesis by (simp add: bracket_start_def startswith_def)
  next
    case 2
    then have "prefix ''Tuple['' (strip r)" using bracket_literals(14) by (intro prefix_strip) simp_all
    then have "prefix (map lower_char ''Tuple['') (map lower_char (strip r))" by (rule map_mono_prefix)
    then have "prefix ''tuple['' (norm r)"
      using bracket_literals(12) by (simp add: norm_def lower_def)
    then show ?thesis by (simp add: bracket_start_def startswith_def)
  qed
qed

lemma settles_here_fixed:
  assumes "settles_here style v" and "frames lim \<noteq> 0"
  shows "map_type lim style v = Inr v"
proof -
  from assms(1) have d: "direct style (norm v)" and m: "map_type one_call style v = Inr v"
    by (simp_all add: settles_here_def)
  have "frames one_call \<noteq> 0" by (simp add: one_call_def)
  with d assms(2) have "map_type lim style v = map_type one_call style v" by (rule map_type_direct)
  with m show ?thesis by simp
qed

lemma settles_elsewhere_moved:
  assumes "settles_elsewhere style v"
  shows "map_type lim style v \<noteq> Inr v"
proof (cases "frames lim = 0")
  case True
  then show ?thesis by (simp add: map_type_no_room)
next
  case room: False
  have one: "frames one_call \<noteq> 0" by (simp add: one_call_def)
  define t where "t = norm v"
  show ?thesis
  proof (cases "direct style t")
    case True
    with assms have "map_type one_call style v \<noteq> Inr v" by (simp add: settles_elsewhere_def t_def)
    moreover have "map_type lim style v = map_type one_call style v"
      using True room one unfolding t_def by (rule map_type_direct)
    ultimately show ?thesis by simp
  next
    case False
    define a where "a = strip (split1 t '','' ! 0)"
    define inside where "inside = lim\<lparr>frames := frames lim - 1\<rparr>"
    from assms False have c: "t \<noteq> []" "\<not> contains t '' or ''" "\<not> startswith t ''list of ''"
      "\<not> startswith t ''array of ''" "\<not> startswith t ''tuple of ''"
      "t \<notin> set (map fst (base_map style))" "contains t '',''"
      and d: "direct style (norm a)" and m: "map_type one_call style a \<noteq> Inr v"
      by (simp_all add: settles_elsewhere_def t_def a_def Let_def)
    have step: "map_type lim style v = map_type inside style a"
      unfolding map_type.simps [of lim style v] Let_def t_def [symmetric] a_def inside_def
      using room c by (simp del: set_map)
    show ?thesis
    proof (cases "frames inside = 0")
      case True
      with step show ?thesis by (simp add: map_type_no_room)
    next
      case False
      with d one have "map_type inside style a = map_type one_call style a" by (intro map_type_direct)
      with step m show ?thesis by simp
    qed
  qed
qed

lemma stable_labels_settle:
  "list_all (settles_here ''dotnet'') (stable_labels ''dotnet'')"
  "list_all (settles_here ''python'') (stable_labels ''python'')"
  by code_simp+

lemma other_finals_settle:
  "list_all (\<lambda>v. v \<in> set (stable_labels ''dotnet'') \<or> settles_elsewhere ''dotnet'' v) (finals ''dotnet'')"
  "list_all (\<lambda>v. v \<in> set (stable_labels ''python'') \<or> settles_elsewhere ''python'' v) (finals ''python'')"
  by code_simp+

lemma fixed_labels_known:
  assumes "style = ''dotnet'' \<or> style = ''python''" and "map_type lim style label = Inr r"
  shows "map_type lim style r = Inr r \<longleftrightarrow> r \<in> set (stable_labels style)"
proof
  assume "r \<in> set (stable_labels style)"
  with assms(1) have "settles_here style r" using stable_labels_settle unfolding list_all_iff by blast
  moreover have "frames lim \<noteq> 0"
  proof
    assume "frames lim = 0"
    then have "map_type lim style label = Inl RecursionError" by (rule map_type_no_room)
    with assms(2) show False by simp
  qed
  ultimately show "map_type lim style r = Inr r" by (rule settles_here_fixed)
next
  assume fixed: "map_type lim style r = Inr r"
  show "r \<in> set (stable_labels style)"
  proof (rule ccontr)
    assume n: "r \<notin> set (stable_labels style)"
    have "r \<in> set (finals style)"
    proof (cases "bracketed r")
      case True
      then have "bracket_start (norm r)" by (rule bracketed_norm)
      then show ?thesis using fixed by (rule bracket_final)
    next
      case False
      with assms(2) show ?thesis using map_type_range by blast
    qed
    with n assms(1) have "settles_elsewhere style r"
      using other_finals_settle unfolding list_all_iff by blast
    then have "map_type lim style r \<noteq> Inr r" by (rule settles_elsewhere_moved)
    with fixed show False by simp
  qed
qed

lemma fixed_labels:
  assumes "map_type lim style label = Inr r"
  shows "map_type lim style r = Inr r \<longleftrightarrow> r \<in> set (stable_labels style)"
proof (cases "style = ''dotnet''")
  case True
  with assms show ?thesis by (intro fixed_labels_known) simp_all
next
  case False
  then have t: "base_map style = base_map ''python''" by (simp add: base_map_def)
  from False have s: "stable_labels style = stable_labels ''python''" by (simp add: stable_labels_def)
  from assms have "map_type lim ''python'' label = Inr r" using map_type_table [OF t] by simp
  then have "map_type lim ''python'' r = Inr r \<longleftrightarrow> r \<in> set (stable_labels ''python'')"
    by (intro fixed_labels_known) simp_all
  then show ?thesis using map_type_table [OF t, of lim r] s by simp
qed

subsection \<open>Normalizing twice\<close>

text \<open>
  Claim C3, as the code has it. The normalizer of the metadata pipeline is called with
  the containing class, and its last rule rewrites a spelling that is the simple name
  of that class to the fully-qualified name. On every spelling built from the alias
  table (the keys of the table, and from them arrays \<open>T[]\<close>, the nullable forms
  \<open>Nullable{T}\<close>, \<open>System.Nullable{T}\<close> and \<open>T?\<close>, and generics
  \<open>Base{T1,...,Tn}\<close>), and for every containing class whose simple name has no
  question mark, the second application returns the label of the first, unless that
  label is the simple name of the class and is no key of the alias table: then it
  returns the fully-qualified name. The mapper of the free-text pipeline maps a label
  that it has returned to itself exactly when the label is one of \<open>None\<close>, \<open>bool\<close>,
  \<open>float\<close>, \<open>int\<close>, \<open>str\<close>, \<open>datetime.date\<close> and \<open>Any\<close>, or, in the \<open>dotnet\<close>
  style, \<open>System.Drawing.Color\<close> or one of the \<open>Rhino.Geometry.*\<close> labels.
\<close>

theorem normalizer_idempotence:
  "(t \<in> alias_forms \<and> (\<forall>s. container_simple = Some s \<longrightarrow> CHR ''?'' \<notin> set s)
      \<longrightarrow> map_dotnet_to_python (map_dotnet_to_python t container_fqn container_simple)
            container_fqn container_simple
          = (if map_of aliases (map_dotnet_to_python t container_fqn container_simple) = None
                \<and> container_simple = Some (map_dotnet_to_python t container_fqn container_simple)
                \<and> truthy container_fqn
             then fmt container_fqn
             else map_dotnet_to_python t container_fqn container_simple))
   \<and> (map_type lim style label = Inr r
      \<longrightarrow> (map_type lim style r = Inr r \<longleftrightarrow> r \<in> set (stable_labels style)))"
  using normalize_twice [of t container_simple container_fqn] fixed_labels [of lim style label r]
  by blast

theorem normalizer_idempotence_witness:
  "''System.Collections.Generic.Dictionary{System.String,System.Nullable{System.Int32}[]}'' \<in> alias_forms
   \<and> CHR ''?'' \<notin> set ''Mesh''
   \<and> map_dotnet_to_python
       ''System.Collections.Generic.Dictionary{System.String,System.Nullable{System.Int32}[]}''
       (Some ''Rhino.Geometry.Mesh'') (Some ''Mesh'')
     = ''Dict[str, List[Optional[int]]]''
   \<and> map_dotnet_to_python ''Dict[str, List[Optional[int]]]'' (Some ''Rhino.Geometry.Mesh'') (Some ''Mesh'')
     = ''Dict[str, List[Optional[int]]]''
   \<and> map_type cpython ''dotnet'' ''plane'' = Inr ''Rhino.Geometry.Plane''
   \<and> ''Rhino.Geometry.Plane'' \<in> set (stable_labels ''dotnet'')
   \<and> map_type cpython ''dotnet'' ''Rhino.Geometry.Plane'' = Inr ''Rhino.Geometry.Plane''
   \<and> map_type cpython ''dotnet'' ''list of int'' = Inr ''List[int]''
   \<and> ''List[int]'' \<notin> set (stable_labels ''dotnet'')
   \<and> map_type cpython ''dotnet'' ''List[int]'' \<noteq> Inr ''List[int]''"
proof -
  let ?t = "''System.Collections.Generic.Dictionary{System.String,System.Nullable{System.Int32}[]}''"
  let ?f = "Some ''Rhino.Geometry.Mesh''" and ?c = "Some ''Mesh''"
  have k1: "''System.String'' \<in> alias_forms" by (rule alias_forms.form_alias) (simp add: aliases_def)
  have "''System.Int32'' \<in> alias_forms" by (rule alias_forms.form_alias) (simp add: aliases_def)
  then have "''System.Nullable{'' @ ''System.Int32'' @ ''}'' \<in> alias_forms"
    by (rule alias_forms.form_system_nullable)
  then have "(''System.Nullable{'' @ ''System.Int32'' @ ''}'') @ ''[]'' \<in> alias_forms"
    by (rule alias_forms.form_array)
  then have k2: "''System.Nullable{System.Int32}[]'' \<in> alias_forms" by simp
  have b: "generic_base ''System.Collections.Generic.Dictionary''" by code_simp
  have "''System.Collections.Generic.Dictionary'' @ ''{''
      @ join '','' [''System.String'', ''System.Nullable{System.Int32}[]''] @ ''}'' \<in> alias_forms"
    using b k1 k2 by (intro alias_forms.form_generic) simp_all
  then have m: "?t \<in> alias_forms" by simp
  have q: "CHR ''?'' \<notin> set ''Mesh''" by simp
  have v: "map_dotnet_to_python ?t ?f ?c = ''Dict[str, List[Optional[int]]]''" by code_simp
  have n: "''Mesh'' \<noteq> ''Dict[str, List[Optional[int]]]''" by simp
  from m q normalizer_idempotence [of ?t ?c ?f]
  have "map_dotnet_to_python (map_dotnet_to_python ?t ?f ?c) ?f ?c
      = (if map_of aliases (map_dotnet_to_python ?t ?f ?c) = None
            \<and> ?c = Some (map_dotnet_to_python ?t ?f ?c) \<and> truthy ?f
         then fmt ?f else map_dotnet_to_python ?t ?f ?c)"
    by simp
  then have w: "map_dotnet_to_python ''Dict[str, List[Optional[int]]]'' ?f ?c = ''Dict[str, List[Optional[int]]]''"
    unfolding v using n by simp
  have p: "map_type cpython ''dotnet'' ''plane'' = Inr ''Rhino.Geometry.Plane''" by code_simp
  have s: "''Rhino.Geometry.Plane'' \<in> set (stable_labels ''dotnet'')" by (simp add: stable_labels_def)
  from p s normalizer_idempotence [of _ _ _ cpython "''dotnet''" "''plane''" "''Rhino.Geometry.Plane''"]
  have x: "map_type cpython ''dotnet'' ''Rhino.Geometry.Plane'' = Inr ''Rhino.Geometry.Plane''" by blast
  have l: "map_type cpython ''dotnet'' ''list of int'' = Inr ''List[int]''" by code_simp
  have u: "''List[int]'' \<notin> set (stable_labels ''dotnet'')" by (simp add: stable_labels_def)
  from l u normalizer_idempotence [of _ _ _ cpython "''dotnet''" "''list of int''" "''List[int]''"]
  have y: "map_type cpython ''dotnet'' ''List[int]'' \<noteq> Inr ''List[int]''" by blast
  from m q v w p s x l u y show ?thesis by blast
qed

text \<open>
  The claim as the specification states it fails for both normalizers. For a class
  \<open>Ns.Any\<close>, the normalizer of the metadata pipeline maps \<open>object\<close> to \<open>Any\<close> and
  \<open>Any\<close>, now the simple name of the class, to \<open>Ns.Any\<close>. A simple name with a
  question mark can be a spelling itself: for the container \<open>Ns.int??\<close> read with a
  space before it, \<open>int??\<close> goes to the container's name and that to its trimmed
  text. The free-text mapper, in
  the \<open>dotnet\<close> style, maps \<open>guid\<close> to \<open>System.Guid\<close> and \<open>System.Guid\<close> to \<open>Any\<close>,
  \<open>list of int\<close> to \<open>List[int]\<close> and that to \<open>Any\<close>, and \<open>interval\<close> to
  \<open>Tuple[float, float]\<close> and that to \<open>Any\<close>; in the other style it maps \<open>color\<close> to
  \<open>Tuple[int, int, int]\<close> and that to \<open>Any\<close>.
\<close>

theorem normalizer_idempotence_counterexample:
  "container_simple_of (Some ''Ns.Any'') = Some ''Any''
   \<and> map_dotnet_to_python ''object'' (Some ''Ns.Any'') (Some ''Any'') = ''Any''
   \<and> map_dotnet_to_python ''Any'' (Some ''Ns.Any'') (Some ''Any'') = ''Ns.Any''
   \<and> container_simple_of (Some '' Ns.int??'') = Some ''int??''
   \<and> map_dotnet_to_python ''int??'' (Some '' Ns.int??'') (Some ''int??'') = '' Ns.int??''
   \<and> map_dotnet_to_python '' Ns.int??'' (Some '' Ns.int??'') (Some ''int??'') = ''Ns.int??''
   \<and> map_type cpython ''dotnet'' ''guid'' = Inr ''System.Guid''
   \<and> map_type cpython ''dotnet'' ''System.Guid'' = Inr ''Any''
   \<and> map_type cpython ''dotnet'' ''list of int'' = Inr ''List[int]''
   \<and> map_type cpython ''dotnet'' ''List[int]'' = Inr ''Any''
   \<and> map_type cpython ''dotnet'' ''interval'' = Inr ''Tuple[float, float]''
   \<and> map_type cpython ''dotnet'' ''Tuple[float, float]'' = Inr ''Any''
   \<and> map_type cpython ''python'' ''color'' = Inr ''Tuple[int, int, int]''
   \<and> map_type cpython ''python'' ''Tuple[int, int, int]'' = Inr ''Any''"
proof -
  have "container_simple_of (Some ''Ns.Any'') = Some ''Any''" by code_simp
  moreover have "map_dotnet_to_python ''object'' (Some ''Ns.Any'') (Some ''Any'') = ''Any''" by code_simp
  moreover have "map_dotnet_to_python ''Any'' (Some ''Ns.Any'') (Some ''Any'') = ''Ns.Any''" by code_simp
  moreover have "container_simple_of (Some '' Ns.int??'') = Some ''int??''" by code_simp
  moreover have "map_dotnet_to_python ''int??'' (Some '' Ns.int??'') (Some ''int??'') = '' Ns.int??''"
    by code_simp
  moreover have "map_dotnet_to_python '' Ns.int??'' (Some '' Ns.int??'') (Some ''int??'') = ''Ns.int??''"
    by code_simp
  moreover have "map_type cpython ''dotnet'' ''guid'' = Inr ''System.Guid''" by code_simp
  moreover have "map_type cpython ''dotnet'' ''System.Guid'' = Inr ''Any''" by code_simp
  moreover have "map_type cpython ''dotnet'' ''list of int'' = Inr ''List[int]''" by code_simp
  moreover have "map_type cpython ''dotnet'' ''List[int]'' = Inr ''Any''" by code_simp
  moreover have "map_type cpython ''dotnet'' ''interval'' = Inr ''Tuple[float, float]''" by code_simp
  moreover have "map_type cpython ''dotnet'' ''Tuple[float, float]'' = Inr ''Any''" by code_simp
  moreover have "map_type cpython ''python'' ''color'' = Inr ''Tuple[int, int, int]''" by code_simp
  moreover have "map_type cpython ''python'' ''Tuple[int, int, int]'' = Inr ''Any''" by code_simp
  ultimately show ?thesis by blast
qed

end
